theory Spec2Isabelle
  imports Complex_Main
begin

section \<open>Bayesian network nodes (class BayesNode of bayes.py)\<close>

text \<open>
  A node object carries its identifier (\<open>name\<close>), the ordered lists of
  \<open>(parent, line)\<close> and \<open>(child, line)\<close> pairs and the probability table
  \<open>prob\<close>, a dictionary from the parent-assignment index to a number.

  Node objects are referred to by their identifier: identifiers are unique among the live
  nodes, so the entry \<open>(n, l)\<close> of an adjacency list holds the identifier of the
  neighbouring node (what the source reads as \<open>n.name\<close>) and the handle of the line
  drawn for the edge. Comparing two node objects is comparing their identifiers.

  Python's floating-point numbers are idealised as real numbers; the concrete inputs used
  below are dyadic fractions, on which both arithmetics agree.
\<close>

record BayesNode =
  name :: int
  parents :: "(int \<times> int) list"
  children :: "(int \<times> int) list"
  prob :: "int \<rightharpoonup> real"

datatype exn = KeyError | AttributeError | NameError | IndexError | ZeroDivisionError

subsection \<open>addChild\<close>

text \<open>The \<open>for\<close> loop of \<open>addChild\<close>: \<open>False\<close> as soon as the node is found among
  the recorded children, \<open>True\<close> when the loop runs to its end.\<close>

fun addChild_loop :: "(int \<times> int) list \<Rightarrow> int \<Rightarrow> bool" where
  "addChild_loop [] node = True"
| "addChild_loop ((n, l) # rest) node = (if n = node then False else addChild_loop rest node)"

text \<open>\<open>addChild\<close> returns its boolean result together with the node after the call.\<close>

definition addChild :: "BayesNode \<Rightarrow> int \<Rightarrow> int \<Rightarrow> bool \<times> BayesNode" where
  "addChild self node line =
     (if node = name self then (False, self)
      else if \<not> addChild_loop (children self) node then (False, self)
      else (True, self\<lparr>children := children self @ [(node, line)]\<rparr>))"

subsection \<open>getProbability and computeProbability\<close>

text \<open>The loop of \<open>getProbability\<close> over the parents, carrying \<open>evalue\<close> and
  \<open>index\<close>.\<close>

fun getProbability_loop :: "(int \<times> int) list \<Rightarrow> int list \<Rightarrow> int \<Rightarrow> int \<Rightarrow> int" where
  "getProbability_loop [] evidence evalue index = evalue"
| "getProbability_loop ((p, l) # rest) evidence evalue index =
     getProbability_loop rest evidence
       (if p \<in> set evidence then evalue + index else evalue) (index * 2)"

definition getProbability :: "BayesNode \<Rightarrow> int list \<Rightarrow> real" where
  "getProbability self evidence =
     (let evalue = getProbability_loop (parents self) evidence 0 1
      in case prob self evalue of Some p \<Rightarrow> p | None \<Rightarrow> 1 / 2)"

text \<open>
  \<open>computeProbability\<close> calls \<open>getProbability\<close> on the child objects; \<open>deref\<close>
  resolves the reference held in the children list to the node object. A Python reference
  always resolves, so \<open>deref\<close> is a total function.
\<close>

fun computeProbability_loop ::
  "(int \<Rightarrow> BayesNode) \<Rightarrow> (int \<times> int) list \<Rightarrow> int list \<Rightarrow> real \<Rightarrow> real" where
  "computeProbability_loop deref [] values result = result"
| "computeProbability_loop deref ((c, l) # rest) values result =
     (let pTrue = getProbability (deref c) values
      in computeProbability_loop deref rest values
           (if c \<in> set values then result * (1 - pTrue) else result * pTrue))"

definition computeProbability :: "(int \<Rightarrow> BayesNode) \<Rightarrow> BayesNode \<Rightarrow> int list \<Rightarrow> real" where
  "computeProbability deref self values =
     (let pTrue = getProbability self values;
          result = (if name self \<in> set values then 1 - pTrue else pTrue)
      in computeProbability_loop deref (children self) values result)"

text \<open>The flip probability as the specification words it: the child's factor is the
  table probability of the value the child has in \<open>currentState\<close>.\<close>

definition computeFlipProbability_spec ::
  "(int \<Rightarrow> BayesNode) \<Rightarrow> BayesNode \<Rightarrow> int list \<Rightarrow> real" where
  "computeFlipProbability_spec deref n currentState =
     (if name n \<in> set currentState then 1 - getProbability n currentState
      else getProbability n currentState) *
     prod_list (map (\<lambda>(c, l). if c \<in> set currentState
                               then getProbability (deref c) currentState
                               else 1 - getProbability (deref c) currentState)
                    (children n))"

text \<open>A two-node network \<open>1 \<rightarrow> 2\<close>: node 1 has no table entry (probability 1/2), node 2
  is true with probability 1/4 when node 1 is false.\<close>

definition flip_node1 :: BayesNode where
  "flip_node1 = \<lparr>name = 1, parents = [], children = [(2, 10)], prob = Map.empty\<rparr>"

definition flip_node2 :: BayesNode where
  "flip_node2 = \<lparr>name = 2, parents = [(1, 10)], children = [], prob = [0 \<mapsto> 1 / 4]\<rparr>"

definition flip_deref :: "int \<Rightarrow> BayesNode" where
  "flip_deref r = (if r = 1 then flip_node1 else flip_node2)"

section \<open>The sampling loop (class Sampler)\<close>

subsection \<open>matches\<close>

text \<open>\<open>values\<close> is the set of signed literals of the query or of the evidence, listed in
  the order in which the \<open>for\<close> loop visits it; \<open>sample\<close> is the list of the true
  variables.\<close>

fun matches :: "int list \<Rightarrow> int list \<Rightarrow> bool" where
  "matches sample [] = True"
| "matches sample (v # rest) =
     (if v > 0 then (if v \<notin> set sample then False else matches sample rest)
      else (if - v \<in> set sample then False else matches sample rest))"

subsection \<open>run\<close>

text \<open>
  \<open>sampleFunction\<close> is a bound method of the sampler: it reads and updates the sampler's
  state and may raise. It is a function from the state \<open>'s\<close> to either the exception
  or the pair \<open>(weight, sample)\<close> with the new state. \<open>run_loop\<close> is the \<open>for\<close>
  loop of \<open>run\<close> with the iterations still to do, carrying \<open>numerator\<close>,
  \<open>denominator\<close> and \<open>sampleValues\<close>.
\<close>

type_synonym 's sampleFunction = "'s \<Rightarrow> exn + (real \<times> int list) \<times> 's"

fun run_loop ::
  "'s sampleFunction \<Rightarrow> int list \<Rightarrow> int list \<Rightarrow> nat \<Rightarrow> 's \<Rightarrow> real \<Rightarrow> real \<Rightarrow> real list
     \<Rightarrow> exn + real \<times> real \<times> real list \<times> 's" where
  "run_loop sampleFunction query evidence 0 s numerator denominator sampleValues =
     Inr (numerator, denominator, sampleValues, s)"
| "run_loop sampleFunction query evidence (Suc i) s numerator denominator sampleValues =
     (case sampleFunction s of
        Inl e \<Rightarrow> Inl e
      | Inr ((weight, sample), s') \<Rightarrow>
          if matches sample evidence then
            let numerator' = (if matches sample query then numerator + weight else numerator);
                denominator' = denominator + weight;
                sampleValues' = (if denominator' > 0
                                 then sampleValues @ [numerator' / denominator']
                                 else sampleValues)
            in run_loop sampleFunction query evidence i s' numerator' denominator' sampleValues'
          else run_loop sampleFunction query evidence i s' numerator denominator sampleValues)"

text \<open>The text the label \<open>self.message\<close> ends with: the label is created with
  \<open>Working...\<close>, and \<open>run\<close> sets it after the loop.\<close>

datatype message = Working | NoSamplesMatched | Estimate real

text \<open>The points drawn on the canvas: \<open>x\<close> starts at 32 and advances by \<open>xscale\<close>.\<close>

fun plot_loop :: "real \<Rightarrow> real \<Rightarrow> real \<Rightarrow> real list \<Rightarrow> (real \<times> real) list" where
  "plot_loop xscale yscale x [] = []"
| "plot_loop xscale yscale x (s # rest) =
     (x, max 2 ((1 - s) * yscale)) # plot_loop xscale yscale (x + xscale) rest"

text \<open>
  What a call of \<open>run\<close> that got through its loop leaves behind: the message, the two
  accumulators, the trace, and the outcome of the plotting code that follows the message
  (\<open>xscale\<close> divides by the number of trace points, which raises when there is none).
\<close>

record run_result =
  message :: message
  num :: real
  den :: real
  trace :: "real list"
  plot :: "exn + (real \<times> real) list"

text \<open>\<open>run\<close> is \<open>Inl e\<close> when a call of the sample function raised \<open>e\<close>: the
  exception leaves \<open>run\<close> before any message is set.\<close>

definition run ::
  "'s sampleFunction \<Rightarrow> int list \<Rightarrow> int list \<Rightarrow> int \<Rightarrow> 's \<Rightarrow> exn + run_result" where
  "run sampleFunction query evidence iterations s =
     (case run_loop sampleFunction query evidence (nat iterations) s 0 0 [] of
        Inl e \<Rightarrow> Inl e
      | Inr (numerator, denominator, sampleValues, s') \<Rightarrow>
          let msg = (if denominator = 0 then NoSamplesMatched
                     else Estimate (numerator / denominator));
              sampleCount = length sampleValues;
              width = 320; height = 240
          in Inr \<lparr>message = msg, num = numerator, den = denominator, trace = sampleValues,
                  plot = (if sampleCount = 0 then Inl ZeroDivisionError
                          else Inr (plot_loop ((width - 32) / real sampleCount)
                                              ((height - 4) / 1) 32 sampleValues))\<rparr>)"

text \<open>
  The stream of weighted samples a loop of \<open>n\<close> iterations is fed with: the results of
  \<open>n\<close> successive calls of the sample function from state \<open>s\<close>, or the exception
  of the first call that raises.
\<close>

fun draws :: "'s sampleFunction \<Rightarrow> nat \<Rightarrow> 's \<Rightarrow> exn + (real \<times> int list) list \<times> 's" where
  "draws sampleFunction 0 s = Inr ([], s)"
| "draws sampleFunction (Suc i) s =
     (case sampleFunction s of
        Inl e \<Rightarrow> Inl e
      | Inr (ws, s') \<Rightarrow>
          (case draws sampleFunction i s' of
             Inl e \<Rightarrow> Inl e
           | Inr (rest, s'') \<Rightarrow> Inr (ws # rest, s'')))"

text \<open>A sample function that replays a fixed list of weighted samples.\<close>

definition replay :: "(real \<times> int list) list sampleFunction" where
  "replay s = (case s of [] \<Rightarrow> Inl IndexError | ws # rest \<Rightarrow> Inr (ws, rest))"

text \<open>
  Consistency of a sample with a set of literals, in the words of the specification: every
  positive literal is in the sample, the magnitude of every negative literal is not.
\<close>

definition consistent :: "int list \<Rightarrow> int list \<Rightarrow> bool" where
  "consistent sample lits =
     list_all (\<lambda>v. (0 < v \<longrightarrow> v \<in> set sample) \<and> (v < 0 \<longrightarrow> - v \<notin> set sample)) lits"

definition denominator_spec :: "int list \<Rightarrow> (real \<times> int list) list \<Rightarrow> real" where
  "denominator_spec evidence samples =
     sum_list (map fst (filter (\<lambda>(w, smp). consistent smp evidence) samples))"

definition numerator_spec :: "int list \<Rightarrow> int list \<Rightarrow> (real \<times> int list) list \<Rightarrow> real" where
  "numerator_spec query evidence samples =
     sum_list (map fst (filter (\<lambda>(w, smp). consistent smp evidence \<and> consistent smp query)
                               samples))"

section \<open>Gibbs sampling (class GibbsSampler)\<close>

text \<open>
  The two random draws of \<open>gibbsSample\<close> are read from a random source \<open>rnd\<close>: the
  \<open>i\<close>-th call takes \<open>rnd i = (k, u)\<close>, where \<open>random.choice\<close> returns the element
  of index \<open>k mod len\<close> of a non-empty sequence and raises \<open>IndexError\<close> on an empty
  one, and \<open>u\<close> is the value of \<open>random.random()\<close>. The sampler's state is
  \<open>self.state\<close> with the number of calls made so far.
\<close>

definition gibbs_state :: "int list \<Rightarrow> int list" where
  "gibbs_state evidence = filter (\<lambda>e. e > 0) evidence"

definition gibbs_variables :: "int list \<Rightarrow> BayesNode list \<Rightarrow> BayesNode list" where
  "gibbs_variables evidence nodes =
     (let evars = map abs evidence in filter (\<lambda>n. name n \<notin> set evars) nodes)"

definition gibbsSample ::
  "(int \<Rightarrow> BayesNode) \<Rightarrow> (nat \<Rightarrow> nat \<times> real) \<Rightarrow> BayesNode list \<Rightarrow> (int list \<times> nat) sampleFunction" where
  "gibbsSample deref rnd variables = (\<lambda>(state, i).
     if variables = [] then Inl IndexError
     else
       let (k, u) = rnd i;
           node = variables ! (k mod length variables);
           state' = (if u < computeProbability deref node state
                     then (if name node \<notin> set state then state @ [name node]
                           else remove1 (name node) state)
                     else state)
       in Inr ((1, state'), (state', Suc i)))"

definition GibbsSampler ::
  "(int \<Rightarrow> BayesNode) \<Rightarrow> (nat \<Rightarrow> nat \<times> real) \<Rightarrow> int list \<Rightarrow> int list \<Rightarrow> int \<Rightarrow> BayesNode list
     \<Rightarrow> exn + run_result" where
  "GibbsSampler deref rnd query evidence iterations nodes =
     run (gibbsSample deref rnd (gibbs_variables evidence nodes)) query evidence iterations
         (gibbs_state evidence, 0)"

section \<open>The independence checker (class IndependenceChecker)\<close>

text \<open>\<open>self.nodes\<close>, the dictionary from identifier to node object that the
  constructor builds.\<close>

type_synonym network = "int \<rightharpoonup> BayesNode"

definition lookup :: "network \<Rightarrow> int \<Rightarrow> exn + BayesNode" where
  "lookup nodes k = (case nodes k of None \<Rightarrow> Inl KeyError | Some n \<Rightarrow> Inr n)"

definition isChild :: "BayesNode \<Rightarrow> BayesNode \<Rightarrow> bool" where
  "isChild self node = (name node \<in> set (map fst (children self)))"

definition isParent :: "BayesNode \<Rightarrow> BayesNode \<Rightarrow> bool" where
  "isParent self node = (name node \<in> set (map fst (parents self)))"

subsection \<open>getPaths\<close>

text \<open>
  The \<open>while\<close> loop of \<open>getPaths\<close> with its variables \<open>queue\<close>, \<open>visited\<close>
  and \<open>paths\<close>. The result is \<open>None\<close> when the loop does not end,
  \<open>Some (Inl KeyError)\<close> when \<open>self.nodes[node]\<close> fails, and the list of paths
  otherwise. The inner \<open>for\<close> loop appends, in the order of
  \<open>children + parents\<close>, an entry for every neighbour not in \<open>visited\<close>.
\<close>

partial_function (option) getPaths_loop ::
  "network \<Rightarrow> int \<Rightarrow> (int \<times> int list) list \<Rightarrow> int set \<Rightarrow> int list list
     \<Rightarrow> (exn + int list list) option" where
  "getPaths_loop nodes b queue visited paths =
     (case queue of
        [] \<Rightarrow> Some (Inr paths)
      | (node, path) # queue' \<Rightarrow>
          let paths' = (if node = b then paths @ [path] else paths);
              visited' = insert node visited
          in (case lookup nodes node of
                Inl e \<Rightarrow> Some (Inl e)
              | Inr nd \<Rightarrow>
                  getPaths_loop nodes b
                    (queue' @ map (\<lambda>(n, l). (n, path @ [n]))
                                  (filter (\<lambda>(n, l). n \<notin> visited') (children nd @ parents nd)))
                    visited' paths'))"

definition getPaths :: "network \<Rightarrow> int \<Rightarrow> int \<Rightarrow> (exn + int list list) option" where
  "getPaths nodes a b = getPaths_loop nodes b [(a, [a])] {} []"

subsection \<open>isCausalChain, isCommonCause, hasEvidence, isActive\<close>

text \<open>The dictionary lookups are made in the order of the source, and the second operand
  of \<open>and\<close> only when the first is true.\<close>

definition isCausalChain :: "network \<Rightarrow> int \<Rightarrow> int \<Rightarrow> int \<Rightarrow> exn + bool" where
  "isCausalChain nodes a b c =
     (case lookup nodes a of Inl e \<Rightarrow> Inl e | Inr na \<Rightarrow>
     (case lookup nodes b of Inl e \<Rightarrow> Inl e | Inr nb \<Rightarrow>
     (case (if isChild na nb
            then (case lookup nodes c of Inl e \<Rightarrow> Inl e | Inr nc \<Rightarrow> Inr (isChild nb nc))
            else Inr False) of
        Inl e \<Rightarrow> Inl e
      | Inr True \<Rightarrow> Inr True
      | Inr False \<Rightarrow>
          (if isParent na nb
           then (case lookup nodes c of Inl e \<Rightarrow> Inl e | Inr nc \<Rightarrow> Inr (isParent nb nc))
           else Inr False))))"

definition isCommonCause :: "network \<Rightarrow> int \<Rightarrow> int \<Rightarrow> int \<Rightarrow> exn + bool" where
  "isCommonCause nodes a b c =
     (case lookup nodes a of Inl e \<Rightarrow> Inl e | Inr na \<Rightarrow>
     (case lookup nodes b of Inl e \<Rightarrow> Inl e | Inr nb \<Rightarrow>
        (if isParent na nb
         then (case lookup nodes c of Inl e \<Rightarrow> Inl e | Inr nc \<Rightarrow> Inr (isParent nc nb))
         else Inr False)))"

text \<open>
  \<open>hasEvidence\<close> calls itself on every child inside its \<open>for\<close> loop.
  \<open>hasEvidence_loop nodes evidence cs\<close> is that loop over the remaining children
  \<open>cs\<close>: the first argument of \<open>Option.bind\<close> is the call \<open>hasEvidence(c)\<close>,
  the second what the loop does with its result. The value is \<open>None\<close> when the
  recursion does not end.
\<close>

partial_function (option) hasEvidence_loop ::
  "network \<Rightarrow> int list \<Rightarrow> (int \<times> int) list \<Rightarrow> (exn + bool) option" where
  "hasEvidence_loop nodes evidence cs =
     (case cs of
        [] \<Rightarrow> Some (Inr False)
      | (c, l) # rest \<Rightarrow>
          Option.bind
            (if c \<in> set evidence then Some (Inr True)
             else (case lookup nodes c of
                     Inl e \<Rightarrow> Some (Inl e)
                   | Inr nd \<Rightarrow> hasEvidence_loop nodes evidence (children nd)))
            (\<lambda>r. case r of
                   Inl e \<Rightarrow> Some (Inl e)
                 | Inr found \<Rightarrow> if found then Some (Inr True)
                                 else hasEvidence_loop nodes evidence rest))"

definition hasEvidence :: "network \<Rightarrow> int \<Rightarrow> int list \<Rightarrow> (exn + bool) option" where
  "hasEvidence nodes n evidence =
     (if n \<in> set evidence then Some (Inr True)
      else (case lookup nodes n of
              Inl e \<Rightarrow> Some (Inl e)
            | Inr nd \<Rightarrow> hasEvidence_loop nodes evidence (children nd)))"

definition isActive :: "network \<Rightarrow> int \<Rightarrow> int \<Rightarrow> int \<Rightarrow> int list \<Rightarrow> (exn + bool) option" where
  "isActive nodes a b c evidence =
     (if b \<in> set evidence then
        (case isCausalChain nodes a b c of
           Inl e \<Rightarrow> Some (Inl e)
         | Inr True \<Rightarrow> Some (Inr False)
         | Inr False \<Rightarrow>
             (case isCommonCause nodes a b c of
                Inl e \<Rightarrow> Some (Inl e)
              | Inr True \<Rightarrow> Some (Inr False)
              | Inr False \<Rightarrow> hasEvidence nodes b evidence))
      else
        (case isCausalChain nodes a b c of
           Inl e \<Rightarrow> Some (Inl e)
         | Inr True \<Rightarrow> Some (Inr True)
         | Inr False \<Rightarrow>
             (case isCommonCause nodes a b c of
                Inl e \<Rightarrow> Some (Inl e)
              | Inr True \<Rightarrow> Some (Inr True)
              | Inr False \<Rightarrow> hasEvidence nodes b evidence)))"

subsection \<open>checkPath and checkIndependence\<close>

fun checkPath :: "network \<Rightarrow> int list \<Rightarrow> int list \<Rightarrow> (exn + bool) option" where
  "checkPath nodes (x # y # z # rest) evidence =
     (case isActive nodes x y z evidence of
        None \<Rightarrow> None
      | Some (Inl e) \<Rightarrow> Some (Inl e)
      | Some (Inr True) \<Rightarrow> checkPath nodes (y # z # rest) evidence
      | Some (Inr False) \<Rightarrow> Some (Inr True))"
| "checkPath nodes path evidence = Some (Inr False)"

fun checkIndependence_loop :: "network \<Rightarrow> int list list \<Rightarrow> int list \<Rightarrow> (exn + bool) option" where
  "checkIndependence_loop nodes [] evidence = Some (Inr True)"
| "checkIndependence_loop nodes (path # rest) evidence =
     (case checkPath nodes path evidence of
        None \<Rightarrow> None
      | Some (Inl e) \<Rightarrow> Some (Inl e)
      | Some (Inr False) \<Rightarrow> Some (Inr False)
      | Some (Inr True) \<Rightarrow> checkIndependence_loop nodes rest evidence)"

definition checkIndependence :: "network \<Rightarrow> int \<Rightarrow> int \<Rightarrow> int list \<Rightarrow> (exn + bool) option" where
  "checkIndependence nodes a b evidence =
     (case getPaths nodes a b of
        None \<Rightarrow> None
      | Some (Inl e) \<Rightarrow> Some (Inl e)
      | Some (Inr paths) \<Rightarrow> checkIndependence_loop nodes paths evidence)"

subsection \<open>The constructor\<close>

text \<open>
  The constructor does all the work of the class and ends in a dialog or in an exception.
  \<open>has_key\<close> is the method \<open>self.nodes.has_key\<close> as the interpreter finds it:
  a Python 3 dictionary has no such attribute, so the call raises \<open>AttributeError\<close>
  (\<open>has_key_py3\<close>); up to Python 2 it was the membership test (\<open>has_key_py2\<close>).
  The name \<open>tkMessageBox\<close> of the first warning is bound nowhere in the file, which is
  a \<open>NameError\<close>; the other dialogs go through \<open>tk.messagebox\<close>.
\<close>

definition has_key_py3 :: "network \<Rightarrow> int \<Rightarrow> exn + bool" where
  "has_key_py3 nodes k = Inl AttributeError"

definition has_key_py2 :: "network \<Rightarrow> int \<Rightarrow> exn + bool" where
  "has_key_py2 nodes k = Inr (nodes k \<noteq> None)"

datatype dialog = ShowWarning string | ShowInfo bool

text \<open>\<open>for n in nodes.values(): self.nodes[n.name] = n\<close>\<close>

fun index_nodes :: "BayesNode list \<Rightarrow> network \<Rightarrow> network" where
  "index_nodes [] m = m"
| "index_nodes (n # rest) m = index_nodes rest (m(name n \<mapsto> n))"

text \<open>\<open>for n in query: if not self.nodes.has_key(n): valid = False\<close>\<close>

fun has_key_loop ::
  "(network \<Rightarrow> int \<Rightarrow> exn + bool) \<Rightarrow> network \<Rightarrow> int list \<Rightarrow> bool \<Rightarrow> exn + bool" where
  "has_key_loop has_key nodes [] valid = Inr valid"
| "has_key_loop has_key nodes (n # rest) valid =
     (case has_key nodes n of
        Inl e \<Rightarrow> Inl e
      | Inr found \<Rightarrow> has_key_loop has_key nodes rest (if \<not> found then False else valid))"

definition pop :: "'a list \<Rightarrow> exn + 'a \<times> 'a list" where
  "pop xs = (if xs = [] then Inl IndexError else Inr (last xs, butlast xs))"

definition IndependenceChecker ::
  "(network \<Rightarrow> int \<Rightarrow> exn + bool) \<Rightarrow> BayesNode list \<Rightarrow> int list \<Rightarrow> int list
     \<Rightarrow> (exn + dialog) option" where
  "IndependenceChecker has_key nodes query0 evidence0 =
     (let self_nodes = index_nodes nodes Map.empty;
          evidence = map abs evidence0;
          query = map abs query0;
          valid = (length query = 2)
      in (case has_key_loop has_key self_nodes query valid of
            Inl e \<Rightarrow> Some (Inl e)
          | Inr valid \<Rightarrow>
              if \<not> valid then Some (Inl NameError)
              else
                (case has_key_loop has_key self_nodes evidence valid of
                   Inl e \<Rightarrow> Some (Inl e)
                 | Inr valid \<Rightarrow>
                     if \<not> valid then Some (Inr (ShowWarning ''Invalid evidence.''))
                     else
                       (case pop query of Inl e \<Rightarrow> Some (Inl e) | Inr (a, query') \<Rightarrow>
                       (case pop query' of Inl e \<Rightarrow> Some (Inl e) | Inr (b, query'') \<Rightarrow>
                       (case checkIndependence self_nodes a b evidence of
                          None \<Rightarrow> None
                        | Some (Inl e) \<Rightarrow> Some (Inl e)
                        | Some (Inr result) \<Rightarrow> Some (Inr (ShowInfo result))))))))"

subsection \<open>Networks and paths, as the specification speaks of them\<close>

text \<open>\<open>(n, c) \<in> child_rel nodes\<close>: the live node \<open>n\<close> records \<open>c\<close> as a child, the
  edge \<open>n \<rightarrow> c\<close>.\<close>

definition child_rel :: "network \<Rightarrow> (int \<times> int) set" where
  "child_rel nodes = {(n, c). \<exists>nd. nodes n = Some nd \<and> c \<in> fst ` set (children nd)}"

text \<open>
  A network as the editor keeps it: finitely many nodes, each stored under its own
  identifier; every recorded child is a live node that records the node as a parent, and
  every recorded parent is a live node that records the node as a child.
\<close>

definition wf_network :: "network \<Rightarrow> bool" where
  "wf_network nodes \<longleftrightarrow>
     finite (dom nodes) \<and>
     (\<forall>k nd. nodes k = Some nd \<longrightarrow>
        name nd = k \<and>
        (\<forall>c \<in> fst ` set (children nd). \<exists>cn. nodes c = Some cn \<and> k \<in> fst ` set (parents cn)) \<and>
        (\<forall>p \<in> fst ` set (parents nd). \<exists>pn. nodes p = Some pn \<and> k \<in> fst ` set (children pn)))"

definition adjacent :: "network \<Rightarrow> int \<Rightarrow> int \<Rightarrow> bool" where
  "adjacent nodes x y \<longleftrightarrow> (x, y) \<in> child_rel nodes \<or> (y, x) \<in> child_rel nodes"

text \<open>An undirected path from \<open>a\<close> to \<open>b\<close>: live nodes, each next to its successor. It
  is simple when no node repeats.\<close>

definition undirected_path :: "network \<Rightarrow> int \<Rightarrow> int \<Rightarrow> int list \<Rightarrow> bool" where
  "undirected_path nodes a b p \<longleftrightarrow>
     p \<noteq> [] \<and> hd p = a \<and> last p = b \<and> set p \<subseteq> dom nodes \<and>
     (\<forall>i. Suc i < length p \<longrightarrow> adjacent nodes (p ! i) (p ! Suc i))"

text \<open>
  The active-path rule of the specification for a triple \<open>(x, y, z)\<close> and evidence
  \<open>E\<close>: a causal chain (\<open>x \<rightarrow> y \<rightarrow> z\<close> or \<open>x \<leftarrow> y \<leftarrow> z\<close>) or a common cause
  (\<open>x \<leftarrow> y \<rightarrow> z\<close>) is active iff \<open>y\<close> is not in \<open>E\<close>; any other triple is active iff
  \<open>y\<close> or a descendant of \<open>y\<close> is in \<open>E\<close>.
\<close>

definition triple_active :: "network \<Rightarrow> int list \<Rightarrow> int \<Rightarrow> int \<Rightarrow> int \<Rightarrow> bool" where
  "triple_active nodes E x y z \<longleftrightarrow>
     (if ((x, y) \<in> child_rel nodes \<and> (y, z) \<in> child_rel nodes) \<or>
         ((z, y) \<in> child_rel nodes \<and> (y, x) \<in> child_rel nodes) \<or>
         ((y, x) \<in> child_rel nodes \<and> (y, z) \<in> child_rel nodes)
      then y \<notin> set E
      else y \<in> set E \<or> (\<exists>d. (y, d) \<in> (child_rel nodes)\<^sup>+ \<and> d \<in> set E))"

text \<open>A path is blocked when one of its triples of consecutive nodes is not active.\<close>

definition path_blocked :: "network \<Rightarrow> int list \<Rightarrow> int list \<Rightarrow> bool" where
  "path_blocked nodes E p \<longleftrightarrow>
     (\<exists>i. i + 2 < length p \<and> \<not> triple_active nodes E (p ! i) (p ! (i + 1)) (p ! (i + 2)))"

subsection \<open>Four networks\<close>

text \<open>The triangle \<open>1 \<rightarrow> 2\<close>, \<open>1 \<rightarrow> 3\<close>, \<open>3 \<rightarrow> 2\<close>, the edges drawn in this order.\<close>

definition tri :: network where
  "tri = [1 \<mapsto> \<lparr>name = 1, parents = [], children = [(2, 10), (3, 11)], prob = Map.empty\<rparr>,
          2 \<mapsto> \<lparr>name = 2, parents = [(1, 10), (3, 12)], children = [], prob = Map.empty\<rparr>,
          3 \<mapsto> \<lparr>name = 3, parents = [(1, 11)], children = [(2, 12)], prob = Map.empty\<rparr>]"

text \<open>
  Five nodes with the collider \<open>1 \<rightarrow> 5 \<leftarrow> 4\<close> and the chain \<open>1 \<rightarrow> 2 \<rightarrow> 3 \<rightarrow> 4\<close>, drawn
  in the order \<open>1 \<rightarrow> 2\<close>, \<open>1 \<rightarrow> 5\<close>, \<open>2 \<rightarrow> 3\<close>, \<open>3 \<rightarrow> 4\<close>, \<open>4 \<rightarrow> 5\<close>.
\<close>

definition net5 :: network where
  "net5 = [1 \<mapsto> \<lparr>name = 1, parents = [], children = [(2, 10), (5, 11)], prob = Map.empty\<rparr>,
           2 \<mapsto> \<lparr>name = 2, parents = [(1, 10)], children = [(3, 12)], prob = Map.empty\<rparr>,
           3 \<mapsto> \<lparr>name = 3, parents = [(2, 12)], children = [(4, 13)], prob = Map.empty\<rparr>,
           4 \<mapsto> \<lparr>name = 4, parents = [(3, 13)], children = [(5, 14)], prob = Map.empty\<rparr>,
           5 \<mapsto> \<lparr>name = 5, parents = [(1, 11), (4, 14)], children = [], prob = Map.empty\<rparr>]"

text \<open>The collider \<open>1 \<rightarrow> 2 \<leftarrow> 3\<close> with the cycle \<open>2 \<rightarrow> 4 \<rightarrow> 2\<close> below it, drawn in
  the order \<open>1 \<rightarrow> 2\<close>, \<open>3 \<rightarrow> 2\<close>, \<open>2 \<rightarrow> 4\<close>, \<open>4 \<rightarrow> 2\<close>: \<open>addChild\<close> refuses
  neither edge.\<close>

definition cyc4 :: network where
  "cyc4 = [1 \<mapsto> \<lparr>name = 1, parents = [], children = [(2, 10)], prob = Map.empty\<rparr>,
           2 \<mapsto> \<lparr>name = 2, parents = [(1, 10), (3, 11), (4, 13)], children = [(4, 12)],
                 prob = Map.empty\<rparr>,
           3 \<mapsto> \<lparr>name = 3, parents = [], children = [(2, 11)], prob = Map.empty\<rparr>,
           4 \<mapsto> \<lparr>name = 4, parents = [(2, 12)], children = [(2, 13)], prob = Map.empty\<rparr>]"

text \<open>The edge \<open>1 \<rightarrow> 2\<close> and the isolated node 3.\<close>

definition isolated3 :: network where
  "isolated3 = [1 \<mapsto> \<lparr>name = 1, parents = [], children = [(2, 10)], prob = Map.empty\<rparr>,
                2 \<mapsto> \<lparr>name = 2, parents = [(1, 10)], children = [], prob = Map.empty\<rparr>,
                3 \<mapsto> \<lparr>name = 3, parents = [], children = [], prob = Map.empty\<rparr>]"

text \<open>A stream of three weighted samples over the variables 1 and 2.\<close>

definition demo_stream :: "(real \<times> int list) list" where
  "demo_stream = [(1, [1, 2]), (1, [1]), (1 / 2, [2])]"

section \<open>Properties of the node operations\<close>

lemma addChild_loop_iff: "addChild_loop cs node \<longleftrightarrow> node \<notin> fst ` set cs"
  by (induction cs node rule: addChild_loop.induct) auto

text \<open>
  Claim C9. \<open>n.addChild(c)\<close> returns false and leaves the node, hence its children list,
  as it was when \<open>c\<close> is \<open>n\<close> itself or already a recorded child of \<open>n\<close>; otherwise
  it returns true and the children list is the old one with \<open>c\<close> appended.
\<close>

theorem addChild_spec:
  "addChild self c line =
     (if c = name self \<or> c \<in> fst ` set (children self) then (False, self)
      else (True, self\<lparr>children := children self @ [(c, line)]\<rparr>))"
  by (simp add: addChild_def addChild_loop_iff)

theorem addChild_spec_witness:
  "addChild flip_node1 2 11 = (False, flip_node1) \<and>
   addChild flip_node1 1 11 = (False, flip_node1) \<and>
   addChild flip_node1 3 11 = (True, flip_node1\<lparr>children := [(2, 10), (3, 11)]\<rparr>)"
  using addChild_spec [of flip_node1 2 11] addChild_spec [of flip_node1 1 11]
    addChild_spec [of flip_node1 3 11]
  by (simp add: flip_node1_def)

lemma computeProbability_loop_prod:
  "computeProbability_loop deref cs values result =
     result * prod_list (map (\<lambda>(c, l). if c \<in> set values
                                        then 1 - getProbability (deref c) values
                                        else getProbability (deref c) values) cs)"
  by (induction deref cs "values" result rule: computeProbability_loop.induct)
     (simp_all add: Let_def mult.assoc)

text \<open>
  Claim C4, as the code has it. \<open>computeProbability\<close> is the product of the node's own
  factor (\<open>1 - p\<close> when the node is in the state, \<open>p\<close> otherwise) and, for every child,
  the same kind of factor: \<open>1 - c.getProbability(state)\<close> when the child is in the
  state and \<open>c.getProbability(state)\<close> otherwise, that is the table probability of the
  value opposite to the one the child has in the state.
\<close>

theorem computeProbability_product:
  "computeProbability deref n values =
     (if name n \<in> set values then 1 - getProbability n values else getProbability n values) *
     prod_list (map (\<lambda>(c, l). if c \<in> set values
                               then 1 - getProbability (deref c) values
                               else getProbability (deref c) values)
                    (children n))"
  by (simp add: computeProbability_def Let_def computeProbability_loop_prod)

theorem computeProbability_product_witness:
  "computeProbability flip_deref flip_node1 [] = 1 / 8"
  using computeProbability_product [of flip_deref flip_node1 "[]"]
  by (simp add: flip_deref_def flip_node1_def flip_node2_def getProbability_def)

text \<open>
  Claim C4, as the specification words it, fails: with the empty state the child 2 is
  false, the specification multiplies by \<open>1 - 1/4\<close> and the code by \<open>1/4\<close>.
\<close>

theorem computeProbability_spec_counterexample:
  "computeProbability flip_deref flip_node1 [] = 1 / 8 \<and>
   computeFlipProbability_spec flip_deref flip_node1 [] = 3 / 8"
  by (simp add: computeProbability_def computeFlipProbability_spec_def Let_def
      flip_deref_def flip_node1_def flip_node2_def getProbability_def)

section \<open>Properties of the sampling loop and of Gibbs sampling\<close>


lemma matches_consistent: "0 \<notin> set lits \<Longrightarrow> matches sample lits = consistent sample lits"
  by (induction lits) (auto simp: consistent_def)

lemma run_loop_draws:
  "draws f n s = Inr (samples, s') \<Longrightarrow>
   \<exists>sv'. run_loop f q e n s nu de sv =
     Inr (nu + sum_list (map fst (filter (\<lambda>(w, smp). matches smp e \<and> matches smp q) samples)),
          de + sum_list (map fst (filter (\<lambda>(w, smp). matches smp e) samples)), sv', s')"
proof (induction n arbitrary: s samples nu de sv)
  case 0
  then show ?case by simp
next
  case (Suc n)
  from Suc.prems obtain w smp s1 rest where
    f: "f s = Inr ((w, smp), s1)" and d: "draws f n s1 = Inr (rest, s')"
    and samples: "samples = (w, smp) # rest"
    by (auto split: sum.splits)
  let ?nu = "if matches smp e \<and> matches smp q then nu + w else nu"
  let ?de = "if matches smp e then de + w else de"
  let ?sv = "if matches smp e \<and> 0 < de + w then sv @ [?nu / ?de] else sv"
  have step: "run_loop f q e (Suc n) s nu de sv = run_loop f q e n s1 ?nu ?de ?sv"
    using f by (simp add: Let_def)
  from Suc.IH [OF d, of ?nu ?de ?sv] obtain sv' where
    "run_loop f q e n s1 ?nu ?de ?sv =
       Inr (?nu + sum_list (map fst (filter (\<lambda>(w, smp). matches smp e \<and> matches smp q) rest)),
            ?de + sum_list (map fst (filter (\<lambda>(w, smp). matches smp e) rest)), sv', s')"
    by blast
  then show ?case
    unfolding step samples by (intro exI [of _ sv']) simp
qed

lemma filter_matches_consistent:
  "0 \<notin> set lits \<Longrightarrow>
   filter (\<lambda>(w, smp). matches smp lits) samples = filter (\<lambda>(w, smp). consistent smp lits) samples"
  by (simp add: matches_consistent)

lemma run_loop_trace:
  "draws f n s = Inr (samples, s') \<Longrightarrow> \<forall>(w, smp) \<in> set samples. 0 \<le> w \<Longrightarrow>
   0 \<le> de \<Longrightarrow> (sv \<noteq> [] \<longleftrightarrow> 0 < de) \<Longrightarrow>
   run_loop f q e n s nu de sv = Inr (nu', de', sv', s'') \<Longrightarrow>
   (sv' \<noteq> [] \<longleftrightarrow> 0 < de')"
proof (induction n arbitrary: s samples nu de sv)
  case 0
  then show ?case by simp
next
  case (Suc n)
  from Suc.prems(1) obtain w smp s1 rest where
    f: "f s = Inr ((w, smp), s1)" and d: "draws f n s1 = Inr (rest, s')"
    and samples: "samples = (w, smp) # rest"
    by (auto split: sum.splits)
  from Suc.prems(2) samples have w: "0 \<le> w" and rest: "\<forall>(w, smp) \<in> set rest. 0 \<le> w"
    by simp_all
  let ?nu = "if matches smp e \<and> matches smp q then nu + w else nu"
  let ?de = "if matches smp e then de + w else de"
  let ?sv = "if matches smp e \<and> 0 < de + w then sv @ [?nu / ?de] else sv"
  have step: "run_loop f q e (Suc n) s nu de sv = run_loop f q e n s1 ?nu ?de ?sv"
    using f by (simp add: Let_def)
  have de: "0 \<le> ?de" using w Suc.prems(3) by simp
  have inv: "?sv \<noteq> [] \<longleftrightarrow> 0 < ?de"
    using w Suc.prems(3,4) by auto
  from Suc.prems(5) have "run_loop f q e n s1 ?nu ?de ?sv = Inr (nu', de', sv', s'')"
    unfolding step .
  from Suc.IH [OF d rest de inv this] show ?case .
qed

text \<open>
  Claim C5. Let the loop of \<open>run\<close> be fed the weighted samples \<open>samples\<close> (the
  results of the successive calls of the sample function), with weights that are not
  negative and literals that are signed identifiers, hence not 0. Then the loop ends with
  the denominator the sum of the weights of the samples consistent with the evidence and
  the numerator the sum of the weights of those also consistent with the query, both
  starting at 0, and the message is set to the quotient when the denominator is positive
  and to "No samples matched the evidence." otherwise. With a positive denominator the
  plotting code that follows draws its points and \<open>run\<close> returns; with denominator 0
  the trace is empty, \<open>xscale\<close> divides by 0 and \<open>run\<close> ends in
  \<open>ZeroDivisionError\<close> instead of the outcome "no samples matched".
\<close>

theorem run_accumulates:
  assumes stream: "draws sampleFunction (nat iterations) s = Inr (samples, s')"
    and weights: "\<forall>(w, smp) \<in> set samples. 0 \<le> w"
    and lits: "0 \<notin> set evidence" "0 \<notin> set query"
  shows "\<exists>r. run sampleFunction query evidence iterations s = Inr r \<and>
           num r = numerator_spec query evidence samples \<and>
           den r = denominator_spec evidence samples \<and>
           message r = (if den r > 0 then Estimate (num r / den r) else NoSamplesMatched) \<and>
           (if den r > 0 then \<exists>points. plot r = Inr points else plot r = Inl ZeroDivisionError)"
proof -
  from run_loop_draws [OF stream, of query evidence 0 0 "[]"] obtain sv' where
    loop: "run_loop sampleFunction query evidence (nat iterations) s 0 0 [] =
      Inr (numerator_spec query evidence samples, denominator_spec evidence samples, sv', s')"
    using lits by (auto simp: numerator_spec_def denominator_spec_def matches_consistent)
  have nonneg: "0 \<le> denominator_spec evidence samples"
    unfolding denominator_spec_def using weights by (intro sum_list_nonneg) auto
  have trace: "sv' \<noteq> [] \<longleftrightarrow> 0 < denominator_spec evidence samples"
    using run_loop_trace [OF stream weights _ _ loop] by simp
  show ?thesis
  proof (cases "0 < denominator_spec evidence samples")
    case True
    with trace have "sv' \<noteq> []" by simp
    with True loop show ?thesis by (simp add: run_def Let_def)
  next
    case False
    with trace have "sv' = []" by simp
    with False nonneg loop show ?thesis by (simp add: run_def Let_def)
  qed
qed

theorem run_accumulates_witness:
  "(\<exists>r. run replay [2] [1] 3 demo_stream = Inr r \<and> num r = 1 \<and> den r = 2 \<and>
         message r = Estimate (1 / 2)) \<and>
   (\<exists>r. run replay [2] [3] 3 demo_stream = Inr r \<and> num r = 0 \<and> den r = 0 \<and>
         message r = NoSamplesMatched \<and> plot r = Inl ZeroDivisionError)"
proof -
  have d: "draws replay (nat 3) demo_stream = Inr (demo_stream, [])"
    by (simp add: demo_stream_def replay_def eval_nat_numeral)
  have w: "\<forall>(w, smp) \<in> set demo_stream. 0 \<le> w"
    by (simp add: demo_stream_def)
  have n: "numerator_spec [2] [1] demo_stream = 1" "denominator_spec [1] demo_stream = 2"
    "numerator_spec [2] [3] demo_stream = 0" "denominator_spec [3] demo_stream = 0"
    by (simp_all add: numerator_spec_def denominator_spec_def consistent_def demo_stream_def)
  have 1: "\<exists>r. run replay [2] [1] 3 demo_stream = Inr r \<and> num r = 1 \<and> den r = 2 \<and>
         message r = Estimate (1 / 2)"
    using run_accumulates [OF d w, of "[1]" "[2]"] n by auto
  have 2: "\<exists>r. run replay [2] [3] 3 demo_stream = Inr r \<and> num r = 0 \<and> den r = 0 \<and>
         message r = NoSamplesMatched \<and> plot r = Inl ZeroDivisionError"
    using run_accumulates [OF d w, of "[3]" "[2]"] n by auto
  from 1 2 show ?thesis ..
qed

lemma gibbsSample_empty: "gibbsSample deref rnd [] s = Inl IndexError"
  by (cases s) (simp add: gibbsSample_def)

lemma gibbsSample_step:
  assumes "variables \<noteq> []"
  shows "\<exists>n \<in> set variables. \<exists>st'.
           gibbsSample deref rnd variables (st, i) = Inr ((1, st'), (st', Suc i)) \<and>
           (st' = st \<or> (name n \<notin> set st \<and> st' = st @ [name n]) \<or>
            (name n \<in> set st \<and> st' = remove1 (name n) st))"
proof -
  obtain k u where r: "rnd i = (k, u)" by (cases "rnd i")
  from assms have "variables ! (k mod length variables) \<in> set variables" by simp
  then show ?thesis
    using assms r
    by (intro bexI [of _ "variables ! (k mod length variables)"])
       (auto simp: gibbsSample_def Let_def)
qed

lemma gibbs_variables_set:
  "set (gibbs_variables evidence nodes) = {n \<in> set nodes. name n \<notin> abs ` set evidence}"
  by (auto simp: gibbs_variables_def Let_def)

lemma consistent_iff:
  "consistent smp lits \<longleftrightarrow> (\<forall>v \<in> set lits. (0 < v \<longrightarrow> v \<in> set smp) \<and> (v < 0 \<longrightarrow> - v \<notin> set smp))"
  by (simp add: consistent_def list_all_iff)

lemma consistent_toggle:
  assumes c: "consistent st evidence" and n: "x \<notin> abs ` set evidence"
  shows "consistent (st @ [x]) evidence" "consistent (remove1 x st) evidence"
proof -
  have ne: "\<And>e. e \<in> set evidence \<Longrightarrow> (0 < e \<longrightarrow> x \<noteq> e) \<and> (e < 0 \<longrightarrow> x \<noteq> - e)"
  proof -
    fix e assume e: "e \<in> set evidence"
    then have "\<bar>e\<bar> \<noteq> x" using n by auto
    then show "(0 < e \<longrightarrow> x \<noteq> e) \<and> (e < 0 \<longrightarrow> x \<noteq> - e)" by (auto simp: abs_if split: if_splits)
  qed
  show "consistent (st @ [x]) evidence"
    using c ne by (auto simp: consistent_iff)
  show "consistent (remove1 x st) evidence"
    unfolding consistent_iff
  proof (intro ballI conjI impI)
    fix v assume v: "v \<in> set evidence"
    { assume "0 < v"
      with c v ne [OF v] have "v \<in> set st" "v \<noteq> x" by (auto simp: consistent_iff)
      then show "v \<in> set (remove1 x st)" by simp }
    { assume "v < 0"
      with c v have "- v \<notin> set st" by (auto simp: consistent_iff)
      then show "- v \<notin> set (remove1 x st)" by (auto dest: notin_set_remove1) }
  qed
qed

lemma draws_gibbs:
  assumes vs: "variables \<noteq> []" "name ` set variables \<inter> abs ` set evidence = {}"
  shows "consistent st evidence \<Longrightarrow>
    \<exists>samples s'. draws (gibbsSample deref rnd variables) k (st, i) = Inr (samples, s') \<and>
       length samples = k \<and> (\<forall>(w, smp) \<in> set samples. w = 1 \<and> consistent smp evidence)"
proof (induction k arbitrary: st i)
  case 0
  then show ?case by simp
next
  case (Suc k)
  from gibbsSample_step [OF vs(1), of deref rnd st i] obtain n st' where
    n: "n \<in> set variables" and
    step: "gibbsSample deref rnd variables (st, i) = Inr ((1, st'), (st', Suc i))" and
    st': "st' = st \<or> (name n \<notin> set st \<and> st' = st @ [name n]) \<or>
            (name n \<in> set st \<and> st' = remove1 (name n) st)"
    by blast
  from n vs(2) have "name n \<notin> abs ` set evidence" by auto
  with st' Suc.prems have c: "consistent st' evidence"
    using consistent_toggle by blast
  from Suc.IH [OF c, of "Suc i"] obtain samples s' where
    "draws (gibbsSample deref rnd variables) k (st', Suc i) = Inr (samples, s')"
    "length samples = k" "\<forall>(w, smp) \<in> set samples. w = 1 \<and> consistent smp evidence"
    by blast
  then show ?case using step c by simp
qed

lemma gibbs_state_consistent:
  "\<forall>e \<in> set evidence. 0 < e \<longrightarrow> - e \<notin> set evidence \<Longrightarrow> consistent (gibbs_state evidence) evidence"
  by (auto simp: consistent_iff gibbs_state_def)

text \<open>
  Claim C8. With evidence that does not hold both \<open>e\<close> and \<open>-e\<close>, and a working set
  that is not empty: the state starts as the positive evidence identifiers; the working
  set is the nodes whose identifier is not the magnitude of an evidence literal; a call of
  \<open>gibbsSample\<close> emits weight 1 with the state, which it left alone or in which it
  toggled one node of the working set; and every one of the \<open>k\<close> samples of a run
  holds each positive evidence identifier and no magnitude of a negative one.
\<close>

theorem gibbs_clamp:
  assumes "\<forall>e \<in> set evidence. 0 < e \<longrightarrow> - e \<notin> set evidence"
    and "gibbs_variables evidence nodes \<noteq> []"
  shows "set (gibbs_state evidence) = {e \<in> set evidence. 0 < e} \<and>
         set (gibbs_variables evidence nodes) = {n \<in> set nodes. name n \<notin> abs ` set evidence} \<and>
         (\<forall>st i. \<exists>n \<in> set (gibbs_variables evidence nodes). \<exists>st'.
            gibbsSample deref rnd (gibbs_variables evidence nodes) (st, i) = Inr ((1, st'), (st', Suc i)) \<and>
            (st' = st \<or> (name n \<notin> set st \<and> st' = st @ [name n]) \<or>
             (name n \<in> set st \<and> st' = remove1 (name n) st))) \<and>
         (\<exists>samples s'.
            draws (gibbsSample deref rnd (gibbs_variables evidence nodes)) k (gibbs_state evidence, 0)
              = Inr (samples, s') \<and>
            length samples = k \<and>
            (\<forall>(w, smp) \<in> set samples. w = 1 \<and>
               (\<forall>e \<in> set evidence. (0 < e \<longrightarrow> e \<in> set smp) \<and> (e < 0 \<longrightarrow> - e \<notin> set smp))))"
proof (intro conjI)
  show "set (gibbs_state evidence) = {e \<in> set evidence. 0 < e}"
    by (auto simp: gibbs_state_def)
  show "set (gibbs_variables evidence nodes) = {n \<in> set nodes. name n \<notin> abs ` set evidence}"
    by (rule gibbs_variables_set)
  show "\<forall>st i. \<exists>n \<in> set (gibbs_variables evidence nodes). \<exists>st'.
            gibbsSample deref rnd (gibbs_variables evidence nodes) (st, i) = Inr ((1, st'), (st', Suc i)) \<and>
            (st' = st \<or> (name n \<notin> set st \<and> st' = st @ [name n]) \<or>
             (name n \<in> set st \<and> st' = remove1 (name n) st))"
    using gibbsSample_step [OF assms(2)] by blast
  have "name ` set (gibbs_variables evidence nodes) \<inter> abs ` set evidence = {}"
    by (auto simp: gibbs_variables_set)
  from draws_gibbs [OF assms(2) this gibbs_state_consistent [OF assms(1)], of deref rnd k 0]
  show "\<exists>samples s'.
            draws (gibbsSample deref rnd (gibbs_variables evidence nodes)) k (gibbs_state evidence, 0)
              = Inr (samples, s') \<and>
            length samples = k \<and>
            (\<forall>(w, smp) \<in> set samples. w = 1 \<and>
               (\<forall>e \<in> set evidence. (0 < e \<longrightarrow> e \<in> set smp) \<and> (e < 0 \<longrightarrow> - e \<notin> set smp)))"
    by (simp add: consistent_iff)
qed

theorem gibbs_clamp_witness:
  "\<exists>samples s'.
     draws (gibbsSample flip_deref (\<lambda>i. (0, 0)) (gibbs_variables [1] [flip_node1, flip_node2])) 2
           (gibbs_state [1], 0) = Inr (samples, s') \<and>
     length samples = 2 \<and> (\<forall>(w, smp) \<in> set samples. w = 1 \<and> 1 \<in> set smp)"
proof -
  have e: "\<forall>e \<in> set [1 :: int]. 0 < e \<longrightarrow> - e \<notin> set [1]" by simp
  have v: "gibbs_variables [1] [flip_node1, flip_node2] \<noteq> []"
    by (simp add: gibbs_variables_def flip_node1_def flip_node2_def)
  show ?thesis
    using gibbs_clamp [OF e v, of flip_deref "\<lambda>i. (0, 0)" 2] by simp
qed

text \<open>
  Claim C10. When every node's identifier is the magnitude of an evidence literal, the
  working set is empty, and a Gibbs run of at least one iteration ends in the
  \<open>IndexError\<close> of \<open>random.choice\<close>: no message is set and no sample emitted.
\<close>

theorem gibbs_no_variables:
  assumes "\<forall>n \<in> set nodes. name n \<in> abs ` set evidence" and "1 \<le> iterations"
  shows "GibbsSampler deref rnd query evidence iterations nodes = Inl IndexError"
proof -
  have v: "gibbs_variables evidence nodes = []"
    using assms(1) by (auto simp: gibbs_variables_def Let_def filter_empty_conv)
  from assms(2) obtain i where i: "nat iterations = Suc i"
    by (cases "nat iterations") auto
  show ?thesis
    by (simp add: GibbsSampler_def run_def v i gibbsSample_empty)
qed


theorem gibbs_no_variables_witness:
  "GibbsSampler flip_deref (\<lambda>i. (0, 0)) [2] [1, - 2] 5 [flip_node1, flip_node2] = Inl IndexError"
  using gibbs_no_variables [of "[flip_node1, flip_node2]" "[1, - 2]" 5 flip_deref "\<lambda>i. (0, 0)" "[2]"]
  by (simp add: flip_node1_def flip_node2_def)

section \<open>Properties of the independence checker\<close>

subsection \<open>The path enumeration ends and returns undirected paths\<close>


lemma card_unvisited:
  assumes "finite N" "node \<in> N"
  shows "card (N - V) = (if node \<in> V then card (N - insert node V) else card (N - insert node V) + 1)"
proof (cases "node \<in> V")
  case True
  then have "insert node V = V" by (rule insert_absorb)
  with True show ?thesis by (simp only: if_True)
next
  case False
  have "Suc (card (N - V - {node})) = card (N - V)"
    by (rule card_Suc_Diff1) (use assms False in auto)
  moreover have "N - V - {node} = N - insert node V" by (rule Diff_insert [symmetric])
  ultimately have "card (N - V) = card (N - insert node V) + 1" by (simp only: Suc_eq_plus1)
  with False show ?thesis by (simp only: if_False)
qed

lemma queue_weight_decreases:
  fixes D :: nat and N V :: "int set" and new rest :: "(int \<times> int list) list"
  assumes fin: "finite N" and node: "node \<in> N" and len: "length new \<le> D"
    and new: "\<forall>e \<in> set new. fst e \<notin> insert node V"
  shows "(\<Sum>e\<leftarrow>rest @ new. (D + 1) ^ (card (N - insert node V) + (if fst e \<in> insert node V then 1 else 0)))
       < (\<Sum>e\<leftarrow>(node, path) # rest. (D + 1) ^ (card (N - V) + (if fst e \<in> V then 1 else 0)))"
proof -
  define c' where "c' = card (N - insert node V)"
  define c where "c = card (N - V)"
  have c: "c = (if node \<in> V then c' else c' + 1)"
    unfolding c_def c'_def by (rule card_unvisited [OF fin node])
  have head: "c + (if node \<in> V then 1 else 0) = c' + 1"
    using c by simp
  have mono: "c' + (if n \<in> insert node V then 1 else 0) \<le> c + (if n \<in> V then 1 else 0)" for n
    using c by auto
  have pw: "(D + 1) ^ (c' + (if n \<in> insert node V then 1 else 0))
      \<le> (D + 1) ^ (c + (if n \<in> V then 1 else 0))" for n
    by (rule power_increasing [OF mono]) simp
  have rest_le: "(\<Sum>e\<leftarrow>rest. (D + 1) ^ (c' + (if fst e \<in> insert node V then 1 else 0)))
      \<le> (\<Sum>e\<leftarrow>rest. (D + 1) ^ (c + (if fst e \<in> V then 1 else 0)))"
    by (rule sum_list_mono) (rule pw)
  have "(\<Sum>e\<leftarrow>new. (D + 1) ^ (c' + (if fst e \<in> insert node V then 1 else 0)))
      = (\<Sum>e\<leftarrow>new. (D + 1) ^ c')"
    by (rule arg_cong [where f = sum_list], rule map_cong [OF refl]) (use new in auto)
  also have "\<dots> = length new * (D + 1) ^ c'"
    by (simp only: sum_list_triv of_nat_id)
  also have "\<dots> \<le> D * (D + 1) ^ c'"
    using len by (rule mult_right_mono) simp
  also have "\<dots> < (D + 1) ^ (c' + 1)"
    by simp
  finally have new_lt: "(\<Sum>e\<leftarrow>new. (D + 1) ^ (c' + (if fst e \<in> insert node V then 1 else 0)))
      < (D + 1) ^ (c' + 1)" .
  have "(\<Sum>e\<leftarrow>rest @ new. (D + 1) ^ (c' + (if fst e \<in> insert node V then 1 else 0)))
      < (\<Sum>e\<leftarrow>rest. (D + 1) ^ (c + (if fst e \<in> V then 1 else 0))) + (D + 1) ^ (c' + 1)"
    unfolding map_append sum_list_append using rest_le new_lt by (rule add_le_less_mono)
  also have "\<dots> = (\<Sum>e\<leftarrow>(node, path) # rest. (D + 1) ^ (c + (if fst e \<in> V then 1 else 0)))"
    unfolding list.map sum_list.Cons fst_conv head by (rule add.commute)
  finally show ?thesis unfolding c'_def c_def .
qed


lemma getPaths_loop_Nil: "getPaths_loop nodes b [] V paths = Some (Inr paths)"
  by (simp add: getPaths_loop.simps)

lemma getPaths_loop_Cons:
  "nodes node = Some nd \<Longrightarrow>
   getPaths_loop nodes b ((node, path) # rest) V paths =
     getPaths_loop nodes b
       (rest @ map (\<lambda>(n, l). (n, path @ [n]))
                   (filter (\<lambda>(n, l). n \<notin> insert node V) (children nd @ parents nd)))
       (insert node V) (if node = b then paths @ [path] else paths)"
  by (subst getPaths_loop.simps) (simp add: lookup_def Let_def)

lemma getPaths_loop_KeyError:
  "nodes node = None \<Longrightarrow> getPaths_loop nodes b ((node, path) # rest) V paths = Some (Inl KeyError)"
  by (subst getPaths_loop.simps) (simp add: lookup_def Let_def)

lemma degree_bound:
  assumes "finite (dom nodes)"
  shows "\<exists>D. \<forall>k nd. nodes k = Some nd \<longrightarrow> length (children nd @ parents nd) \<le> D"
proof -
  from assms have "finite (ran nodes)" by (rule finite_ran)
  then have "finite ((\<lambda>nd. length (children nd @ parents nd)) ` ran nodes)" by (rule finite_imageI)
  then obtain D where "\<forall>x \<in> (\<lambda>nd. length (children nd @ parents nd)) ` ran nodes. x \<le> D"
    unfolding finite_nat_set_iff_bounded_le by blast
  then have "\<forall>k nd. nodes k = Some nd \<longrightarrow> length (children nd @ parents nd) \<le> D"
    by (auto simp: ran_def)
  then show ?thesis ..
qed

lemma getPaths_loop_rule:
  assumes fin: "finite (dom nodes)"
    and inv: "I queue V paths"
    and live: "\<And>q V ps. I q V ps \<Longrightarrow> fst ` set q \<subseteq> dom nodes"
    and step: "\<And>node path rest V ps nd.
      I ((node, path) # rest) V ps \<Longrightarrow> nodes node = Some nd \<Longrightarrow>
      I (rest @ map (\<lambda>(n, l). (n, path @ [n]))
                    (filter (\<lambda>(n, l). n \<notin> insert node V) (children nd @ parents nd)))
        (insert node V) (if node = b then ps @ [path] else ps)"
  shows "\<exists>ps V'. getPaths_loop nodes b queue V paths = Some (Inr ps) \<and> I [] V' ps"
proof -
  from degree_bound [OF fin] obtain D where
    D: "\<And>k nd. nodes k = Some nd \<Longrightarrow> length (children nd @ parents nd) \<le> D" by blast
  define m :: "(int \<times> int list) list \<Rightarrow> int set \<Rightarrow> nat" where
    "m q W = (\<Sum>e\<leftarrow>q. (D + 1) ^ (card (dom nodes - W) + (if fst e \<in> W then 1 else 0)))" for q W
  show ?thesis
    using inv
  proof (induction "m queue V" arbitrary: queue V paths rule: less_induct)
    case less
    show ?case
    proof (cases queue)
      case Nil
      with less.prems show ?thesis by (auto simp: getPaths_loop_Nil)
    next
      case (Cons e rest)
      obtain node path where e: "e = (node, path)" by (cases e)
      from live [OF less.prems] Cons e have "node \<in> dom nodes" by auto
      then obtain nd where nd: "nodes node = Some nd" by auto
      let ?new = "map (\<lambda>(n, l). (n, path @ [n]))
                    (filter (\<lambda>(n, l). n \<notin> insert node V) (children nd @ parents nd))"
      let ?ps = "if node = b then paths @ [path] else paths"
      have len: "length ?new \<le> D"
        using D [OF nd] length_filter_le [of "\<lambda>(n, l). n \<notin> insert node V" "children nd @ parents nd"]
        by simp
      have new: "\<forall>e \<in> set ?new. fst e \<notin> insert node V" by auto
      have "m (rest @ ?new) (insert node V) < m ((node, path) # rest) V"
        unfolding m_def by (rule queue_weight_decreases [OF fin \<open>node \<in> dom nodes\<close> len new])
      then have lt: "m (rest @ ?new) (insert node V) < m queue V" by (simp add: Cons e)
      have "I (rest @ ?new) (insert node V) ?ps"
        using less.prems nd unfolding Cons e by (rule step)
      from less.hyps [OF lt this] obtain ps V' where
        "getPaths_loop nodes b (rest @ ?new) (insert node V) ?ps = Some (Inr ps)" "I [] V' ps"
        by blast
      then show ?thesis
        unfolding Cons e getPaths_loop_Cons [where nodes = nodes and node = node, OF nd] by blast
    qed
  qed
qed


lemma wf_network_neighbour:
  assumes "wf_network nodes" "nodes k = Some nd" "n \<in> fst ` set (children nd @ parents nd)"
  shows "n \<in> dom nodes" "adjacent nodes k n"
proof -
  from assms(3) consider "n \<in> fst ` set (children nd)" | "n \<in> fst ` set (parents nd)" by auto
  then have "n \<in> dom nodes \<and> adjacent nodes k n"
  proof cases
    case 1
    with assms(1,2) obtain cn where "nodes n = Some cn" unfolding wf_network_def by blast
    moreover from 1 assms(2) have "(k, n) \<in> child_rel nodes" unfolding child_rel_def by blast
    ultimately show ?thesis by (auto simp: adjacent_def)
  next
    case 2
    with assms(1,2) obtain pn where "nodes n = Some pn" "k \<in> fst ` set (children pn)"
      unfolding wf_network_def by blast
    then have "n \<in> dom nodes" "(n, k) \<in> child_rel nodes" unfolding child_rel_def by blast+
    then show ?thesis by (auto simp: adjacent_def)
  qed
  then show "n \<in> dom nodes" "adjacent nodes k n" by simp_all
qed

lemma undirected_path_single: "a \<in> dom nodes \<Longrightarrow> undirected_path nodes a a [a]"
  by (simp add: undirected_path_def)

lemma undirected_path_snoc:
  assumes p: "undirected_path nodes a n p" and adj: "adjacent nodes n n'" and live: "n' \<in> dom nodes"
  shows "undirected_path nodes a n' (p @ [n'])"
proof -
  from p have ne: "p \<noteq> []" and l: "last p = n" by (simp_all add: undirected_path_def)
  have "adjacent nodes ((p @ [n']) ! i) ((p @ [n']) ! Suc i)" if i: "Suc i < length (p @ [n'])" for i
  proof (cases "Suc i < length p")
    case True
    with p show ?thesis by (simp add: nth_append undirected_path_def)
  next
    case False
    with i have i': "Suc i = length p" by simp
    then have "i = length p - 1" by simp
    then have "p ! i = last p" using ne by (simp add: last_conv_nth)
    with i' adj l show ?thesis by (simp add: nth_append)
  qed
  with p live show ?thesis by (simp add: undirected_path_def)
qed

lemma undirected_path_last_live: "undirected_path nodes a n p \<Longrightarrow> n \<in> dom nodes"
  unfolding undirected_path_def using last_in_set by fastforce

lemma getPaths_result:
  assumes wf: "wf_network nodes" and a: "a \<in> dom nodes"
  shows "\<exists>ps. getPaths nodes a b = Some (Inr ps) \<and>
           (\<forall>p \<in> set ps. undirected_path nodes a b p) \<and>
           (a = b \<longrightarrow> ps \<noteq> [] \<and> hd ps = [a])"
proof -
  define I where "I q (V :: int set) ps \<longleftrightarrow>
      (\<forall>e \<in> set q. undirected_path nodes a (fst e) (snd e)) \<and>
      (\<forall>p \<in> set ps. undirected_path nodes a b p) \<and>
      (a = b \<longrightarrow> (q = [(a, [a])] \<and> ps = []) \<or> (ps \<noteq> [] \<and> hd ps = [a]))" for q V ps
  from wf have fin: "finite (dom nodes)" by (simp add: wf_network_def)
  have init: "I [(a, [a])] {} []"
    using a by (simp add: I_def undirected_path_single)
  have live: "fst ` set q \<subseteq> dom nodes" if "I q V ps" for q V ps
    using that by (auto simp: I_def dest: undirected_path_last_live)
  have step: "I (rest @ map (\<lambda>(n, l). (n, path @ [n]))
                    (filter (\<lambda>(n, l). n \<notin> insert node V) (children nd @ parents nd)))
        (insert node V) (if node = b then ps @ [path] else ps)"
    if inv: "I ((node, path) # rest) V ps" and nd: "nodes node = Some nd" for node path rest V ps nd
  proof -
    from inv have path: "undirected_path nodes a node path"
      and rest: "\<forall>e \<in> set rest. undirected_path nodes a (fst e) (snd e)"
      and ps: "\<forall>p \<in> set ps. undirected_path nodes a b p"
      and hd: "a = b \<longrightarrow> ((node, path) # rest = [(a, [a])] \<and> ps = []) \<or> (ps \<noteq> [] \<and> hd ps = [a])"
      by (simp_all add: I_def)
    have new: "undirected_path nodes a n (path @ [n])"
      if "(n, l) \<in> set (children nd @ parents nd)" for n l
    proof -
      from that have "n \<in> fst ` set (children nd @ parents nd)" by force
      from wf_network_neighbour [OF wf nd this] path show ?thesis
        by (intro undirected_path_snoc)
    qed
    have 1: "\<forall>e \<in> set (rest @ map (\<lambda>(n, l). (n, path @ [n]))
                    (filter (\<lambda>(n, l). n \<notin> insert node V) (children nd @ parents nd))).
              undirected_path nodes a (fst e) (snd e)"
    proof
      fix e
      assume "e \<in> set (rest @ map (\<lambda>(n, l). (n, path @ [n]))
                    (filter (\<lambda>(n, l). n \<notin> insert node V) (children nd @ parents nd)))"
      then consider "e \<in> set rest"
        | n l where "(n, l) \<in> set (children nd @ parents nd)" "e = (n, path @ [n])"
        by auto
      then show "undirected_path nodes a (fst e) (snd e)"
      proof cases
        case 1
        with rest show ?thesis by blast
      next
        case 2
        with new [OF 2(1)] show ?thesis by simp
      qed
    qed
    have 2: "\<forall>p \<in> set (if node = b then ps @ [path] else ps). undirected_path nodes a b p"
      using ps path by auto
    have 3: "(if node = b then ps @ [path] else ps) \<noteq> [] \<and>
             hd (if node = b then ps @ [path] else ps) = [a]" if "a = b"
      using hd that by auto
    show ?thesis
      unfolding I_def using 1 2 3 by blast
  qed
  have "\<exists>ps V'. getPaths_loop nodes b [(a, [a])] {} [] = Some (Inr ps) \<and> I [] V' ps"
  proof (rule getPaths_loop_rule [where I = I])
    show "finite (dom nodes)" by (rule fin)
    show "I [(a, [a])] {} []" by (rule init)
    show "fst ` set q \<subseteq> dom nodes" if "I q V ps" for q V ps
      using that by (rule live)
    show "I (rest @ map (\<lambda>(n, l). (n, path @ [n]))
                    (filter (\<lambda>(n, l). n \<notin> insert node V) (children nd @ parents nd)))
        (insert node V) (if node = b then ps @ [path] else ps)"
      if "I ((node, path) # rest) V ps" "nodes node = Some nd" for node path rest V ps nd
      using that by (rule step)
  qed
  then show ?thesis
    by (auto simp: getPaths_def I_def)
qed


subsection \<open>Independence without a path, of a node and itself, and in the two directions\<close>



lemma checkIndependence_of_paths:
  "getPaths nodes a b = Some (Inr ps) \<Longrightarrow>
   checkIndependence nodes a b E = checkIndependence_loop nodes ps E"
  by (simp add: checkIndependence_def)

text \<open>
  Claim C3, as the code has it. In a network as the editor keeps it, for a live node \<open>a\<close>
  and any evidence: when no undirected path leads from \<open>a\<close> to \<open>b\<close>,
  \<open>checkIndependence\<close> returns true; when \<open>a\<close> and \<open>b\<close> are the same node,
  \<open>getPaths\<close> returns the one-node path first, \<open>checkPath\<close> finds no triple on
  it and \<open>checkIndependence\<close> returns false.
\<close>

theorem checkIndependence_no_path:
  assumes wf: "wf_network nodes" and a: "a \<in> dom nodes"
  shows "(\<not> (\<exists>p. undirected_path nodes a b p) \<longrightarrow>
            checkIndependence nodes a b E = Some (Inr True)) \<and>
         (a = b \<longrightarrow> (\<exists>rest. getPaths nodes a b = Some (Inr ([a] # rest))) \<and>
                     checkIndependence nodes a b E = Some (Inr False))"
proof -
  from getPaths_result [OF wf a, of b] obtain ps where
    ps: "getPaths nodes a b = Some (Inr ps)"
    and paths: "\<forall>p \<in> set ps. undirected_path nodes a b p"
    and self: "a = b \<longrightarrow> ps \<noteq> [] \<and> hd ps = [a]"
    by blast
  have "checkIndependence nodes a b E = Some (Inr True)" if "\<not> (\<exists>p. undirected_path nodes a b p)"
  proof -
    from that paths have "ps = []" by (cases ps) auto
    then show ?thesis by (simp add: checkIndependence_of_paths [OF ps])
  qed
  moreover have "(\<exists>rest. getPaths nodes a b = Some (Inr ([a] # rest))) \<and>
      checkIndependence nodes a b E = Some (Inr False)" if "a = b"
  proof -
    from that self obtain rest where "ps = [a] # rest" by (cases ps) auto
    then show ?thesis using ps by (simp add: checkIndependence_of_paths [OF ps])
  qed
  ultimately show ?thesis by blast
qed

lemma wf_network_tri: "wf_network tri"
  unfolding wf_network_def by (auto simp: tri_def split: if_splits)

lemma wf_network_isolated3: "wf_network isolated3"
  unfolding wf_network_def by (auto simp: isolated3_def split: if_splits)

lemma child_rel_isolated3: "child_rel isolated3 = {(1, 2)}"
  by (auto simp: child_rel_def isolated3_def split: if_splits)

lemma no_path_isolated3: "\<not> (\<exists>p. undirected_path isolated3 3 1 p)"
proof
  assume "\<exists>p. undirected_path isolated3 3 1 p"
  then obtain p where p: "p \<noteq> []" "hd p = 3" "last p = 1"
    and adj: "\<And>i. Suc i < length p \<Longrightarrow> adjacent isolated3 (p ! i) (p ! Suc i)"
    by (auto simp: undirected_path_def)
  show False
  proof (cases "length p = 1")
    case True
    with p show False by (cases p) auto
  next
    case False
    with p(1) have "Suc 0 < length p" by (cases p) auto
    from adj [OF this] p(1,2) have "adjacent isolated3 3 (p ! Suc 0)"
      by (simp add: hd_conv_nth)
    then show False by (simp add: adjacent_def child_rel_isolated3)
  qed
qed

theorem checkIndependence_no_path_witness:
  "checkIndependence isolated3 3 1 [2] = Some (Inr True) \<and>
   checkIndependence tri 1 1 [] = Some (Inr False)"
proof -
  have "(3::int) \<in> dom isolated3" by (simp add: isolated3_def)
  from checkIndependence_no_path [OF wf_network_isolated3 this, of 1 "[2]"] no_path_isolated3
  have 1: "checkIndependence isolated3 3 1 [2] = Some (Inr True)" by blast
  have "(1::int) \<in> dom tri" by (simp add: tri_def)
  from checkIndependence_no_path [OF wf_network_tri this, of 1 "[]"]
  have 2: "checkIndependence tri 1 1 [] = Some (Inr False)" by blast
  from 1 2 show ?thesis ..
qed

text \<open>
  Claim C3, as the specification words it, fails for \<open>a = b\<close>: node 1 of the triangle
  is reported dependent on itself.
\<close>

theorem checkIndependence_self_counterexample:
  "getPaths tri 1 1 = Some (Inr [[1]]) \<and> checkIndependence tri 1 1 [] = Some (Inr False)"
  by (simp add: checkIndependence_def getPaths_def tri_def getPaths_loop.simps lookup_def)

text \<open>
  Claim C2 at the triangle: \<open>getPaths(1, 2)\<close> returns the path \<open>[1, 2]\<close> only. Node
  2 is marked visited when the entry of \<open>[1, 2]\<close> leaves the queue, before the entry
  \<open>(3, [1, 3])\<close> is expanded, so the simple path \<open>1 \<rightarrow> 3 \<rightarrow> 2\<close> is never
  enumerated.
\<close>

theorem getPaths_misses_path:
  "getPaths tri 1 2 = Some (Inr [[1, 2]]) \<and>
   (1, 3) \<in> child_rel tri \<and> (3, 2) \<in> child_rel tri \<and> distinct [1, 3, 2 :: int]"
  by (simp add: getPaths_def tri_def getPaths_loop.simps lookup_def child_rel_def)

lemma getPaths_net5_1_4: "getPaths net5 1 4 = Some (Inr [[1, 5, 4], [1, 2, 3, 4]])"
  by (simp add: getPaths_def net5_def getPaths_loop.simps lookup_def)

lemma getPaths_net5_4_1: "getPaths net5 4 1 = Some (Inr [[4, 5, 1]])"
  by (simp add: getPaths_def net5_def getPaths_loop.simps lookup_def)

text \<open>
  Claim C6 at the five-node network with empty evidence: from 1 to 4 both paths are
  enumerated, the chain \<open>[1, 2, 3, 4]\<close> is active and the answer is dependent; from 4
  to 1 only the collider path \<open>[4, 5, 1]\<close> is enumerated and the answer is independent.
\<close>

theorem checkIndependence_not_symmetric:
  "checkIndependence net5 1 4 [] = Some (Inr False) \<and>
   checkIndependence net5 4 1 [] = Some (Inr True)"
  unfolding checkIndependence_def getPaths_net5_1_4 getPaths_net5_4_1
  by (simp add: net5_def isActive_def isCausalChain_def isCommonCause_def isChild_def isParent_def
      hasEvidence_def hasEvidence_loop.simps lookup_def)

lemma wf_network_net5: "wf_network net5"
  unfolding wf_network_def by (auto simp: net5_def split: if_splits)

text \<open>
  Claim C7 at a query naming no live node, and at the empty query: the constructor ends in
  an exception. With the Python 3 dictionary the first \<open>has_key\<close> raises
  \<open>AttributeError\<close>; were \<open>has_key\<close> the membership test, or the query empty, the
  warning of the invalid query raises \<open>NameError\<close> on \<open>tkMessageBox\<close>.
\<close>

theorem IndependenceChecker_raises:
  "IndependenceChecker has_key_py3 [flip_node1, flip_node2] [5] [] = Some (Inl AttributeError) \<and>
   IndependenceChecker has_key_py2 [flip_node1, flip_node2] [5] [] = Some (Inl NameError) \<and>
   IndependenceChecker has_key_py3 [flip_node1, flip_node2] [] [] = Some (Inl NameError)"
  by (simp add: IndependenceChecker_def has_key_py3_def has_key_py2_def flip_node1_def flip_node2_def)


subsection \<open>The active-path rule\<close>


lemma isChild_child_rel:
  assumes "wf_network nodes" "nodes a = Some na" "nodes b = Some nb"
  shows "isChild na nb \<longleftrightarrow> (a, b) \<in> child_rel nodes"
proof -
  from assms have "name nb = b" by (auto simp: wf_network_def)
  then show ?thesis using assms(2) by (auto simp: isChild_def child_rel_def)
qed

lemma isParent_child_rel:
  assumes wf: "wf_network nodes" and a: "nodes a = Some na" and b: "nodes b = Some nb"
  shows "isParent na nb \<longleftrightarrow> (b, a) \<in> child_rel nodes"
proof
  from wf b have nb: "name nb = b" by (auto simp: wf_network_def)
  {
    assume "isParent na nb"
    with nb have "b \<in> fst ` set (parents na)" by (auto simp: isParent_def)
    with wf a obtain pn where "nodes b = Some pn" "a \<in> fst ` set (children pn)"
      unfolding wf_network_def by blast
    then show "(b, a) \<in> child_rel nodes" unfolding child_rel_def by blast
  }
  {
    assume "(b, a) \<in> child_rel nodes"
    with b have "a \<in> fst ` set (children nb)" by (auto simp: child_rel_def)
    with wf b obtain cn where "nodes a = Some cn" "b \<in> fst ` set (parents cn)"
      unfolding wf_network_def by blast
    with a nb show "isParent na nb" by (auto simp: isParent_def)
  }
qed

lemma isCausalChain_spec:
  assumes wf: "wf_network nodes" and a: "nodes a = Some na" and b: "nodes b = Some nb"
    and c: "nodes c = Some nc"
  shows "isCausalChain nodes a b c =
    Inr (((a, b) \<in> child_rel nodes \<and> (b, c) \<in> child_rel nodes) \<or>
         ((b, a) \<in> child_rel nodes \<and> (c, b) \<in> child_rel nodes))"
  using isChild_child_rel [OF wf a b] isChild_child_rel [OF wf b c]
    isParent_child_rel [OF wf a b] isParent_child_rel [OF wf b c] a b c
  by (auto simp: isCausalChain_def lookup_def split: bool.splits)

lemma isCommonCause_spec:
  assumes wf: "wf_network nodes" and a: "nodes a = Some na" and b: "nodes b = Some nb"
    and c: "nodes c = Some nc"
  shows "isCommonCause nodes a b c =
    Inr ((b, a) \<in> child_rel nodes \<and> (b, c) \<in> child_rel nodes)"
  using isParent_child_rel [OF wf a b] isParent_child_rel [OF wf c b] a b c
  by (auto simp: isCommonCause_def lookup_def)


lemma hasEvidence_loop_Nil: "hasEvidence_loop nodes E [] = Some (Inr False)"
  by (simp add: hasEvidence_loop.simps)

lemma hasEvidence_loop_Cons:
  "hasEvidence_loop nodes E ((c, l) # rest) =
     Option.bind (hasEvidence nodes c E)
       (\<lambda>r. case r of Inl e \<Rightarrow> Some (Inl e)
            | Inr found \<Rightarrow> if found then Some (Inr True) else hasEvidence_loop nodes E rest)"
  by (subst hasEvidence_loop.simps) (simp add: hasEvidence_def)

lemma finite_child_rel:
  assumes "wf_network nodes"
  shows "finite (child_rel nodes)"
proof -
  have "child_rel nodes \<subseteq> dom nodes \<times> dom nodes"
    using assms unfolding child_rel_def wf_network_def by blast
  moreover from assms have "finite (dom nodes \<times> dom nodes)" by (simp add: wf_network_def)
  ultimately show ?thesis by (rule finite_subset)
qed

lemma descendant_unfold:
  "(\<exists>d. (n, d) \<in> (child_rel nodes)\<^sup>* \<and> d \<in> set E) \<longleftrightarrow>
   n \<in> set E \<or> (\<exists>c. (n, c) \<in> child_rel nodes \<and> (\<exists>d. (c, d) \<in> (child_rel nodes)\<^sup>* \<and> d \<in> set E))"
proof
  assume "\<exists>d. (n, d) \<in> (child_rel nodes)\<^sup>* \<and> d \<in> set E"
  then obtain d where d: "(n, d) \<in> (child_rel nodes)\<^sup>*" "d \<in> set E" by blast
  from d(1) show "n \<in> set E \<or> (\<exists>c. (n, c) \<in> child_rel nodes \<and>
      (\<exists>d. (c, d) \<in> (child_rel nodes)\<^sup>* \<and> d \<in> set E))"
  proof (cases rule: converse_rtranclE)
    case base
    with d(2) show ?thesis by simp
  next
    case (step c)
    with d(2) show ?thesis by blast
  qed
next
  assume "n \<in> set E \<or> (\<exists>c. (n, c) \<in> child_rel nodes \<and>
      (\<exists>d. (c, d) \<in> (child_rel nodes)\<^sup>* \<and> d \<in> set E))"
  then show "\<exists>d. (n, d) \<in> (child_rel nodes)\<^sup>* \<and> d \<in> set E"
    by (blast intro: converse_rtrancl_into_rtrancl)
qed

lemma hasEvidence_spec:
  assumes wf: "wf_network nodes" and acyc: "acyclic (child_rel nodes)"
  shows "n \<in> dom nodes \<Longrightarrow>
    hasEvidence nodes n E = Some (Inr (\<exists>d. (n, d) \<in> (child_rel nodes)\<^sup>* \<and> d \<in> set E))"
proof -
  let ?desc = "\<lambda>n. \<exists>d. (n, d) \<in> (child_rel nodes)\<^sup>* \<and> d \<in> set E"
  have wfr: "wf ((child_rel nodes)\<inverse>)"
    using finite_child_rel [OF wf] acyc by (rule finite_acyclic_wf_converse)
  show "n \<in> dom nodes \<Longrightarrow> hasEvidence nodes n E = Some (Inr (?desc n))"
    using wfr
  proof (induction n rule: wf_induct_rule)
    case (less n)
    from less.prems obtain nd where nd: "nodes n = Some nd" by auto
    have loop: "set cs \<subseteq> set (children nd) \<Longrightarrow>
      hasEvidence_loop nodes E cs = Some (Inr (\<exists>c \<in> fst ` set cs. ?desc c))" for cs
    proof (induction cs)
      case Nil
      show ?case by (simp add: hasEvidence_loop_Nil)
    next
      case (Cons x cs)
      obtain c l where x: "x = (c, l)" by (cases x)
      with Cons.prems have c: "c \<in> fst ` set (children nd)" by force
      with nd have rel: "(n, c) \<in> child_rel nodes" unfolding child_rel_def by blast
      from c wf nd have "c \<in> dom nodes" unfolding wf_network_def by blast
      with rel less.IH [of c] have "hasEvidence nodes c E = Some (Inr (?desc c))" by simp
      moreover from Cons have "hasEvidence_loop nodes E cs = Some (Inr (\<exists>c \<in> fst ` set cs. ?desc c))"
        by simp
      ultimately show ?case unfolding x hasEvidence_loop_Cons by auto
    qed
    have "(\<exists>c \<in> fst ` set (children nd). ?desc c) \<longleftrightarrow> (\<exists>c. (n, c) \<in> child_rel nodes \<and> ?desc c)"
      using nd unfolding child_rel_def by auto
    then have "?desc n \<longleftrightarrow> n \<in> set E \<or> (\<exists>c \<in> fst ` set (children nd). ?desc c)"
      using descendant_unfold [of n nodes E] by simp
    then show ?case
      using nd loop [of "children nd"] by (simp add: hasEvidence_def lookup_def)
  qed
qed

lemma descendant_trancl:
  "(\<exists>d. (y, d) \<in> (child_rel nodes)\<^sup>* \<and> d \<in> set E) \<longleftrightarrow>
   y \<in> set E \<or> (\<exists>d. (y, d) \<in> (child_rel nodes)\<^sup>+ \<and> d \<in> set E)"
  by (auto simp: rtrancl_eq_or_trancl)

lemma hasEvidence_loop_partial_aux:
  assumes "hasEvidence_loop nodes E cs = Some y"
  shows "wf_network nodes \<longrightarrow> fst ` set cs \<subseteq> dom nodes \<longrightarrow>
   y = Inr (\<exists>c \<in> fst ` set cs. \<exists>d. (c, d) \<in> (child_rel nodes)\<^sup>* \<and> d \<in> set E)"
proof (rule hasEvidence_loop.raw_induct [where P = "\<lambda>nodes E cs y.
    wf_network nodes \<longrightarrow> fst ` set cs \<subseteq> dom nodes \<longrightarrow>
    y = Inr (\<exists>c \<in> fst ` set cs. \<exists>d. (c, d) \<in> (child_rel nodes)\<^sup>* \<and> d \<in> set E)",
    OF _ assms], goal_cases)
  case (1 f nodes E cs y)
  let ?desc = "\<lambda>n. \<exists>d. (n, d) \<in> (child_rel nodes)\<^sup>* \<and> d \<in> set E"
  have IH: "y' = Inr (\<exists>c \<in> fst ` set cs'. ?desc c)"
    if "f nodes E cs' = Some y'" "wf_network nodes" "fst ` set cs' \<subseteq> dom nodes" for cs' y'
    using 1(1) [OF that(1), rule_format, OF that(2) that(3)] .
  show ?case
  proof (intro impI)
    assume wf: "wf_network nodes" and live: "fst ` set cs \<subseteq> dom nodes"
    show "y = Inr (\<exists>c \<in> fst ` set cs. ?desc c)"
    proof (cases cs)
      case Nil
      with 1(2) show ?thesis by simp
    next
      case (Cons x rest)
      obtain c l where x: "x = (c, l)" by (cases x)
      from live Cons x have c: "c \<in> dom nodes" and rest: "fst ` set rest \<subseteq> dom nodes"
        by auto
      from c obtain nd where nd: "nodes c = Some nd" by auto
      from wf nd have kids: "fst ` set (children nd) \<subseteq> dom nodes"
        unfolding wf_network_def by blast
      have "(\<exists>k \<in> fst ` set (children nd). ?desc k) \<longleftrightarrow> (\<exists>k. (c, k) \<in> child_rel nodes \<and> ?desc k)"
        using nd unfolding child_rel_def by auto
      then have desc: "?desc c \<longleftrightarrow> c \<in> set E \<or> (\<exists>k \<in> fst ` set (children nd). ?desc k)"
        using descendant_unfold [of c nodes E] by simp
      show ?thesis
      proof (cases "c \<in> set E")
        case True
        with 1(2) Cons x desc show ?thesis by auto
      next
        case False
        with 1(2) Cons x nd obtain r where r: "f nodes E (children nd) = Some r"
          and y: "(case r of Inl e \<Rightarrow> Some (Inl e)
                   | Inr found \<Rightarrow> if found then Some (Inr True) else f nodes E rest) = Some y"
          by (auto simp: lookup_def bind_eq_Some_conv)
        from IH [OF r wf kids] have r': "r = Inr (\<exists>k \<in> fst ` set (children nd). ?desc k)" .
        show ?thesis
        proof (cases "\<exists>k \<in> fst ` set (children nd). ?desc k")
          case True
          with y r' desc Cons x show ?thesis by auto
        next
          case no: False
          with y r' have "f nodes E rest = Some y" by (auto split: if_splits)
          from IH [OF this wf rest] no False desc Cons x show ?thesis by auto
        qed
      qed
    qed
  qed
qed

lemma hasEvidence_loop_partial:
  "hasEvidence_loop nodes E cs = Some y \<Longrightarrow> wf_network nodes \<Longrightarrow> fst ` set cs \<subseteq> dom nodes \<Longrightarrow>
   y = Inr (\<exists>c \<in> fst ` set cs. \<exists>d. (c, d) \<in> (child_rel nodes)\<^sup>* \<and> d \<in> set E)"
  using hasEvidence_loop_partial_aux by blast

lemma hasEvidence_partial:
  assumes wf: "wf_network nodes" and n: "n \<in> dom nodes"
    and r: "hasEvidence nodes n E = Some y"
  shows "y = Inr (\<exists>d. (n, d) \<in> (child_rel nodes)\<^sup>* \<and> d \<in> set E)"
proof -
  have "hasEvidence_loop nodes E [(n, 0)] = Some y"
    unfolding hasEvidence_loop_Cons using r
    by (cases y) (auto simp: hasEvidence_loop_Nil split: bool.splits)
  from hasEvidence_loop_partial [OF this wf] n show ?thesis by simp
qed


lemma isActive_unfold:
  assumes wf: "wf_network nodes"
    and x: "x \<in> dom nodes" and y: "y \<in> dom nodes" and z: "z \<in> dom nodes"
  shows "isActive nodes x y z E =
    (if ((x, y) \<in> child_rel nodes \<and> (y, z) \<in> child_rel nodes) \<or>
        ((z, y) \<in> child_rel nodes \<and> (y, x) \<in> child_rel nodes) \<or>
        ((y, x) \<in> child_rel nodes \<and> (y, z) \<in> child_rel nodes)
     then Some (Inr (y \<notin> set E)) else hasEvidence nodes y E)"
proof -
  from x y z obtain nx ny nz where n: "nodes x = Some nx" "nodes y = Some ny" "nodes z = Some nz"
    by auto
  note chain = isCausalChain_spec [OF wf n]
  note cause = isCommonCause_spec [OF wf n]
  let ?cond = "((x, y) \<in> child_rel nodes \<and> (y, z) \<in> child_rel nodes) \<or>
        ((z, y) \<in> child_rel nodes \<and> (y, x) \<in> child_rel nodes) \<or>
        ((y, x) \<in> child_rel nodes \<and> (y, z) \<in> child_rel nodes)"
  show ?thesis
  proof (cases "((x, y) \<in> child_rel nodes \<and> (y, z) \<in> child_rel nodes) \<or>
         ((z, y) \<in> child_rel nodes \<and> (y, x) \<in> child_rel nodes)")
    case True
    then have c: "isCausalChain nodes x y z = Inr True" unfolding chain by blast
    from True have cond: ?cond by blast
    show ?thesis by (subst if_P [OF cond]) (simp add: isActive_def c)
  next
    case no_chain: False
    then have c: "isCausalChain nodes x y z = Inr False" unfolding chain by blast
    show ?thesis
    proof (cases "(y, x) \<in> child_rel nodes \<and> (y, z) \<in> child_rel nodes")
      case True
      then have k: "isCommonCause nodes x y z = Inr True" unfolding cause by simp
      from True have cond: ?cond by blast
      show ?thesis by (subst if_P [OF cond]) (simp add: isActive_def c k)
    next
      case False
      then have k: "isCommonCause nodes x y z = Inr False" unfolding cause by simp
      from False no_chain have cond: "\<not> ?cond" by blast
      show ?thesis by (subst if_not_P [OF cond]) (simp add: isActive_def c k)
    qed
  qed
qed

lemma triple_active_unfold:
  "Some (Inr (triple_active nodes E x y z) :: exn + bool) =
    (if ((x, y) \<in> child_rel nodes \<and> (y, z) \<in> child_rel nodes) \<or>
        ((z, y) \<in> child_rel nodes \<and> (y, x) \<in> child_rel nodes) \<or>
        ((y, x) \<in> child_rel nodes \<and> (y, z) \<in> child_rel nodes)
     then Some (Inr (y \<notin> set E))
     else Some (Inr (\<exists>d. (y, d) \<in> (child_rel nodes)\<^sup>* \<and> d \<in> set E)))"
  unfolding triple_active_def descendant_trancl by (rule if_distrib)

lemma isActive_spec:
  assumes wf: "wf_network nodes" and acyc: "acyclic (child_rel nodes)"
    and x: "x \<in> dom nodes" and y: "y \<in> dom nodes" and z: "z \<in> dom nodes"
  shows "isActive nodes x y z E = Some (Inr (triple_active nodes E x y z))"
  unfolding isActive_unfold [OF wf x y z] triple_active_unfold
    hasEvidence_spec [OF wf acyc y] ..

lemma isActive_partial:
  assumes wf: "wf_network nodes"
    and x: "x \<in> dom nodes" and y: "y \<in> dom nodes" and z: "z \<in> dom nodes"
    and r: "isActive nodes x y z E = Some r"
  shows "r = Inr (triple_active nodes E x y z)"
proof -
  have "Some r = Some (Inr (triple_active nodes E x y z))"
    using r hasEvidence_partial [OF wf y, of E r]
    unfolding isActive_unfold [OF wf x y z] triple_active_unfold
    by (auto split: if_splits)
  then show ?thesis by simp
qed

lemma path_blocked_short: "length p < 3 \<Longrightarrow> \<not> path_blocked nodes E p"
  by (simp add: path_blocked_def)

lemma path_blocked_Cons:
  "path_blocked nodes E (x # y # z # rest) \<longleftrightarrow>
     \<not> triple_active nodes E x y z \<or> path_blocked nodes E (y # z # rest)"
proof
  assume "path_blocked nodes E (x # y # z # rest)"
  then obtain i where i: "i + 2 < length (x # y # z # rest)"
    "\<not> triple_active nodes E ((x # y # z # rest) ! i) ((x # y # z # rest) ! (i + 1))
        ((x # y # z # rest) ! (i + 2))"
    unfolding path_blocked_def by blast
  show "\<not> triple_active nodes E x y z \<or> path_blocked nodes E (y # z # rest)"
  proof (cases i)
    case 0
    with i(2) show ?thesis by simp
  next
    case (Suc j)
    with i have "j + 2 < length (y # z # rest)"
      "\<not> triple_active nodes E ((y # z # rest) ! j) ((y # z # rest) ! (j + 1)) ((y # z # rest) ! (j + 2))"
      by simp_all
    then show ?thesis unfolding path_blocked_def by blast
  qed
next
  assume "\<not> triple_active nodes E x y z \<or> path_blocked nodes E (y # z # rest)"
  then show "path_blocked nodes E (x # y # z # rest)"
  proof
    assume "\<not> triple_active nodes E x y z"
    then show ?thesis unfolding path_blocked_def by (intro exI [of _ 0]) simp
  next
    assume "path_blocked nodes E (y # z # rest)"
    then obtain j where "j + 2 < length (y # z # rest)"
      "\<not> triple_active nodes E ((y # z # rest) ! j) ((y # z # rest) ! (j + 1)) ((y # z # rest) ! (j + 2))"
      unfolding path_blocked_def by blast
    then show ?thesis unfolding path_blocked_def by (intro exI [of _ "Suc j"]) simp
  qed
qed

lemma checkPath_spec:
  assumes wf: "wf_network nodes" and acyc: "acyclic (child_rel nodes)"
  shows "set p \<subseteq> dom nodes \<Longrightarrow> checkPath nodes p E = Some (Inr (path_blocked nodes E p))"
proof (induction p)
  case Nil
  show ?case by (simp add: path_blocked_short)
next
  case (Cons x p')
  show ?case
  proof (cases p')
    case Nil
    then show ?thesis by (simp add: path_blocked_short)
  next
    case p': (Cons y p'')
    show ?thesis
    proof (cases p'')
      case Nil
      with p' show ?thesis by (simp add: path_blocked_short)
    next
      case (Cons z rest)
      with p' Cons.prems have live: "x \<in> dom nodes" "y \<in> dom nodes" "z \<in> dom nodes"
        and rest: "set p' \<subseteq> dom nodes" by simp_all
      note act = isActive_spec [OF wf acyc live, of E]
      from Cons.IH [OF rest] p' Cons
      have IH: "checkPath nodes (y # z # rest) E = Some (Inr (path_blocked nodes E (y # z # rest)))"
        by simp
      show ?thesis
        unfolding p' Cons
        by (cases "triple_active nodes E x y z") (simp_all add: act IH path_blocked_Cons)
    qed
  qed
qed

lemma checkPath_partial:
  assumes wf: "wf_network nodes"
  shows "set p \<subseteq> dom nodes \<Longrightarrow> checkPath nodes p E = Some r \<Longrightarrow>
    r = Inr (path_blocked nodes E p)"
proof (induction p)
  case Nil
  then show ?case by (simp add: path_blocked_short)
next
  case (Cons x p')
  show ?case
  proof (cases p')
    case Nil
    with Cons.prems show ?thesis by (simp add: path_blocked_short)
  next
    case p': (Cons y p'')
    show ?thesis
    proof (cases p'')
      case Nil
      with p' Cons.prems show ?thesis by (simp add: path_blocked_short)
    next
      case (Cons z rest)
      with p' Cons.prems have live: "x \<in> dom nodes" "y \<in> dom nodes" "z \<in> dom nodes"
        and rest: "set p' \<subseteq> dom nodes" by simp_all
      from Cons.prems(2) p' Cons obtain ra where ra: "isActive nodes x y z E = Some ra"
        by (cases "isActive nodes x y z E") auto
      from isActive_partial [OF wf live ra] have act: "isActive nodes x y z E =
          Some (Inr (triple_active nodes E x y z))" using ra by simp
      show ?thesis
      proof (cases "triple_active nodes E x y z")
        case True
        with Cons.prems(2) p' Cons act have "checkPath nodes p' E = Some r" by simp
        from Cons.IH [OF rest this] True p' Cons show ?thesis by (simp add: path_blocked_Cons)
      next
        case False
        with Cons.prems(2) p' Cons act show ?thesis by (auto simp: path_blocked_Cons)
      qed
    qed
  qed
qed

lemma checkIndependence_loop_spec:
  assumes wf: "wf_network nodes" and acyc: "acyclic (child_rel nodes)"
  shows "\<forall>p \<in> set ps. set p \<subseteq> dom nodes \<Longrightarrow>
    checkIndependence_loop nodes ps E = Some (Inr (\<forall>p \<in> set ps. path_blocked nodes E p))"
proof (induction ps)
  case Nil
  show ?case by simp
next
  case (Cons p ps)
  then have "checkPath nodes p E = Some (Inr (path_blocked nodes E p))"
    by (intro checkPath_spec [OF wf acyc]) simp
  with Cons show ?case by (cases "path_blocked nodes E p") simp_all
qed

lemma checkIndependence_loop_partial:
  assumes wf: "wf_network nodes"
  shows "\<forall>p \<in> set ps. set p \<subseteq> dom nodes \<Longrightarrow> checkIndependence_loop nodes ps E = Some r \<Longrightarrow>
    r = Inr (\<forall>p \<in> set ps. path_blocked nodes E p)"
proof (induction ps)
  case Nil
  then show ?case by simp
next
  case (Cons p ps)
  from Cons.prems(2) obtain rp where rp: "checkPath nodes p E = Some rp"
    by (cases "checkPath nodes p E") auto
  from Cons.prems(1) have "set p \<subseteq> dom nodes" by simp
  from checkPath_partial [OF wf this rp] rp
  have cp: "checkPath nodes p E = Some (Inr (path_blocked nodes E p))" by simp
  show ?case
  proof (cases "path_blocked nodes E p")
    case True
    with Cons.prems(2) cp have "checkIndependence_loop nodes ps E = Some r" by simp
    with Cons.IH Cons.prems(1) True show ?thesis by simp
  next
    case False
    with Cons.prems(2) cp show ?thesis by auto
  qed
qed

text \<open>
  Claim C1, as the code has it. In a network as the editor keeps it, for a live node \<open>a\<close> and any
  evidence \<open>E\<close>: \<open>getPaths(a, b)\<close> returns a list of paths; a value returned by
  \<open>checkIndependence(a, b, E)\<close> is true if and only if every path of that list is
  blocked, that is, has three consecutive nodes \<open>(x, y, z)\<close> that are not active,
  where a causal chain or a common cause is active iff \<open>y\<close> is not in \<open>E\<close>, and any
  other triple iff \<open>y\<close> or a descendant of \<open>y\<close> is in \<open>E\<close>; and in an acyclic
  network \<open>checkIndependence\<close> does return that value (on a cycle the recursion of
  \<open>hasEvidence\<close> over the children need not end).
\<close>

theorem checkIndependence_blocked:
  assumes wf: "wf_network nodes" and a: "a \<in> dom nodes"
  shows "\<exists>paths. getPaths nodes a b = Some (Inr paths) \<and>
           (\<forall>r. checkIndependence nodes a b E = Some r \<longrightarrow>
                r = Inr (\<forall>p \<in> set paths. path_blocked nodes E p)) \<and>
           (acyclic (child_rel nodes) \<longrightarrow>
              checkIndependence nodes a b E = Some (Inr (\<forall>p \<in> set paths. path_blocked nodes E p)))"
proof -
  from getPaths_result [OF wf a, of b] obtain ps where
    ps: "getPaths nodes a b = Some (Inr ps)"
    and paths: "\<forall>p \<in> set ps. undirected_path nodes a b p"
    by blast
  from paths have live: "\<forall>p \<in> set ps. set p \<subseteq> dom nodes" by (simp add: undirected_path_def)
  have "r = Inr (\<forall>p \<in> set ps. path_blocked nodes E p)"
    if "checkIndependence nodes a b E = Some r" for r
    using checkIndependence_loop_partial [OF wf live, of E r] that
    by (simp add: checkIndependence_of_paths [OF ps])
  moreover have "checkIndependence nodes a b E = Some (Inr (\<forall>p \<in> set ps. path_blocked nodes E p))"
    if "acyclic (child_rel nodes)"
    using checkIndependence_loop_spec [OF wf that live, of E]
    by (simp add: checkIndependence_of_paths [OF ps])
  ultimately show ?thesis using ps by blast
qed

lemma child_rel_net5: "child_rel net5 = {(1, 2), (1, 5), (2, 3), (3, 4), (4, 5)}"
  by (auto simp: child_rel_def net5_def split: if_splits)

lemma acyclic_net5: "acyclic (child_rel net5)"
proof (rule acyclicI_order)
  fix a b :: int
  assume "(a, b) \<in> child_rel net5"
  then show "nat (10 - b) < nat (10 - a)" by (auto simp: child_rel_net5)
qed

theorem checkIndependence_blocked_witness:
  "\<exists>paths. getPaths net5 1 4 = Some (Inr paths) \<and>
     checkIndependence net5 1 4 [3] = Some (Inr (\<forall>p \<in> set paths. path_blocked net5 [3] p))"
proof -
  have "(1::int) \<in> dom net5" by (simp add: net5_def)
  from checkIndependence_blocked [OF wf_network_net5 this, of 4 "[3]"] acyclic_net5
  show ?thesis by blast
qed

lemma wf_network_cyc4: "wf_network cyc4"
  unfolding wf_network_def by (auto simp: cyc4_def split: if_splits)

lemma child_rel_cyc4: "child_rel cyc4 = {(1, 2), (3, 2), (2, 4), (4, 2)}"
  by (auto simp: child_rel_def cyc4_def split: if_splits)

lemma getPaths_cyc4: "getPaths cyc4 1 3 = Some (Inr [[1, 2, 3]])"
  by (simp add: getPaths_def cyc4_def getPaths_loop.simps lookup_def)

lemma path_blocked_cyc4: "path_blocked cyc4 [] [1, 2, 3]"
  unfolding path_blocked_def
  by (intro exI [of _ 0]) (simp add: triple_active_def child_rel_cyc4)

lemma hasEvidence_loop_cyc4_aux:
  assumes "hasEvidence_loop nodes E cs = Some y"
  shows "nodes = cyc4 \<longrightarrow> E = [] \<longrightarrow> cs \<noteq> [(4, 12)] \<and> cs \<noteq> [(2, 13)]"
proof (rule hasEvidence_loop.raw_induct [where P = "\<lambda>nodes E cs y.
    nodes = cyc4 \<longrightarrow> E = [] \<longrightarrow> cs \<noteq> [(4, 12)] \<and> cs \<noteq> [(2, 13)]", OF _ assms], goal_cases)
  case (1 f nodes E cs y)
  have IH: "cs' \<noteq> [(4, 12)] \<and> cs' \<noteq> [(2, 13)]" if "f cyc4 [] cs' = Some y'" for cs' y'
    using 1(1) [OF that] by simp
  show ?case
  proof (intro impI conjI notI)
    assume "nodes = cyc4" "E = []" "cs = [(4, 12)]"
    with 1(2) obtain r where "f cyc4 [] [(2, 13)] = Some r"
      by (auto simp: lookup_def cyc4_def bind_eq_Some_conv)
    with IH show False by blast
  next
    assume "nodes = cyc4" "E = []" "cs = [(2, 13)]"
    with 1(2) obtain r where "f cyc4 [] [(4, 12)] = Some r"
      by (auto simp: lookup_def cyc4_def bind_eq_Some_conv)
    with IH show False by blast
  qed
qed

lemma hasEvidence_cyc4: "hasEvidence cyc4 2 [] = None"
proof -
  have "hasEvidence_loop cyc4 [] [(4, 12)] = None"
    using hasEvidence_loop_cyc4_aux [of cyc4 "[]" "[(4, 12)]"]
    by (cases "hasEvidence_loop cyc4 [] [(4, 12)]") auto
  then show ?thesis by (simp add: hasEvidence_def lookup_def cyc4_def)
qed

text \<open>
  Claim C1, as the specification words it, fails on a network with a cycle: in the
  network \<open>cyc4\<close> \<open>getPaths(1, 3)\<close> returns the path \<open>[1, 2, 3]\<close> only, which is
  blocked (a collider with no evidence at or below node 2), yet \<open>checkIndependence\<close>
  returns nothing: \<open>hasEvidence(2)\<close> calls \<open>hasEvidence(4)\<close>, which calls
  \<open>hasEvidence(2)\<close>, without end.
\<close>

theorem checkIndependence_cycle_counterexample:
  "wf_network cyc4 \<and> getPaths cyc4 1 3 = Some (Inr [[1, 2, 3]]) \<and>
   path_blocked cyc4 [] [1, 2, 3] \<and> checkIndependence cyc4 1 3 [] = None"
proof -
  have "isCausalChain cyc4 1 2 3 = Inr False" "isCommonCause cyc4 1 2 3 = Inr False"
    by (simp_all add: isCausalChain_def isCommonCause_def isChild_def isParent_def lookup_def cyc4_def)
  then have "isActive cyc4 1 2 3 [] = None"
    by (simp add: isActive_def hasEvidence_cyc4)
  then have "checkIndependence cyc4 1 3 [] = None"
    by (simp add: checkIndependence_def getPaths_cyc4)
  with wf_network_cyc4 getPaths_cyc4 path_blocked_cyc4 show ?thesis by blast
qed

end
